theory Spec2Isabelle
  imports Main "HOL-Library.AList"
begin

section \<open>Bytes, slices and the library calls of the scanners\<close>

text \<open>
  A Go \<open>[]byte\<close> and a Go \<open>string\<close> are both lists of 8-bit characters here.
  Indexing and slicing panic in Go when they leave the slice; the checked versions
  below return \<open>None\<close> there, so that every unguarded access of the source is a
  branch of the model.
\<close>

type_synonym bytes = "char list"

definition index :: "bytes \<Rightarrow> nat \<Rightarrow> char option" where
  "index a i = (if i < length a then Some (a ! i) else None)"

definition slice :: "bytes \<Rightarrow> nat \<Rightarrow> nat \<Rightarrow> bytes option" where
  "slice a lo hi = (if lo \<le> hi \<and> hi \<le> length a then Some (take (hi - lo) (drop lo a)) else None)"

text \<open>\<open>bytes.Contains(s, sub)\<close>: \<open>sub\<close> occurs in \<open>s\<close> as a contiguous run.\<close>

fun Contains :: "bytes \<Rightarrow> bytes \<Rightarrow> bool" where
  "Contains [] sub = (sub = [])"
| "Contains (x # xs) sub = (take (length sub) (x # xs) = sub \<or> Contains xs sub)"

text \<open>\<open>strings.HasPrefix(s, p)\<close>.\<close>

definition HasPrefix :: "string \<Rightarrow> string \<Rightarrow> bool" where
  "HasPrefix s p = (take (length p) s = p)"

text \<open>
  \<open>strings.IndexByte(s, c)\<close>: the index of the first \<open>c\<close> in \<open>s\<close>; Go returns -1 when
  there is none, which is \<open>None\<close> here.
\<close>

fun IndexByte :: "string \<Rightarrow> char \<Rightarrow> nat option" where
  "IndexByte [] c = None"
| "IndexByte (x # xs) c = (if x = c then Some 0 else map_option Suc (IndexByte xs c))"

text \<open>
  \<open>bytes.TrimSpace\<close> of the Go standard library removes leading and trailing white
  space as Unicode defines it: the six ASCII space bytes, and the UTF-8 encodings of
  U+0085, U+00A0, U+1680, U+2000..U+200A, U+2028, U+2029, U+202F, U+205F and U+3000.
  An invalid or any other multi-byte sequence is not white space and stops the trim.
\<close>

definition asciiSpace :: "char \<Rightarrow> bool" where
  "asciiSpace c = (c = CHR 0x09 \<or> c = CHR 0x0A \<or> c = CHR 0x0B \<or> c = CHR 0x0C
     \<or> c = CHR 0x0D \<or> c = CHR 0x20)"

definition unicodeSpaces :: "bytes list" where
  "unicodeSpaces =
    [[CHR 0xC2, CHR 0x85], [CHR 0xC2, CHR 0xA0], [CHR 0xE1, CHR 0x9A, CHR 0x80],
     [CHR 0xE2, CHR 0x80, CHR 0x80], [CHR 0xE2, CHR 0x80, CHR 0x81],
     [CHR 0xE2, CHR 0x80, CHR 0x82], [CHR 0xE2, CHR 0x80, CHR 0x83],
     [CHR 0xE2, CHR 0x80, CHR 0x84], [CHR 0xE2, CHR 0x80, CHR 0x85],
     [CHR 0xE2, CHR 0x80, CHR 0x86], [CHR 0xE2, CHR 0x80, CHR 0x87],
     [CHR 0xE2, CHR 0x80, CHR 0x88], [CHR 0xE2, CHR 0x80, CHR 0x89],
     [CHR 0xE2, CHR 0x80, CHR 0x8A], [CHR 0xE2, CHR 0x80, CHR 0xA8],
     [CHR 0xE2, CHR 0x80, CHR 0xA9], [CHR 0xE2, CHR 0x80, CHR 0xAF],
     [CHR 0xE2, CHR 0x81, CHR 0x9F], [CHR 0xE3, CHR 0x80, CHR 0x80]]"

text \<open>The width of the white-space rune \<open>s\<close> starts with; 0 when it starts with none.\<close>

definition spaceWidth :: "bytes \<Rightarrow> nat" where
  "spaceWidth s =
     (case s of [] \<Rightarrow> 0
      | c # _ \<Rightarrow>
          if asciiSpace c then 1
          else (case find (\<lambda>t. take (length t) s = t) unicodeSpaces of
                  None \<Rightarrow> 0 | Some t \<Rightarrow> length t))"

text \<open>The width of the white-space rune \<open>s\<close> ends with; 0 when it ends with none.\<close>

definition spaceWidthLast :: "bytes \<Rightarrow> nat" where
  "spaceWidthLast s =
     (if s = [] then 0
      else if asciiSpace (last s) then 1
      else (case find (\<lambda>t. length t \<le> length s \<and> drop (length s - length t) s = t) unicodeSpaces of
              None \<Rightarrow> 0 | Some t \<Rightarrow> length t))"

lemma spaceWidth_le: "spaceWidth s \<le> length s"
proof (cases s)
  case Nil
  then show ?thesis by (simp add: spaceWidth_def)
next
  case (Cons c cs)
  show ?thesis
  proof (cases "find (\<lambda>t. take (length t) s = t) unicodeSpaces")
    case None
    then show ?thesis using Cons by (simp add: spaceWidth_def)
  next
    case (Some t)
    then have "take (length t) s = t" by (auto simp: find_Some_iff)
    then have "length (take (length t) s) = length t" by simp
    then have "length t \<le> length s" by simp
    then show ?thesis using Cons Some by (simp add: spaceWidth_def)
  qed
qed

lemma spaceWidthLast_le: "spaceWidthLast s \<le> length s"
proof (cases "s = []")
  case True
  then show ?thesis by (simp add: spaceWidthLast_def)
next
  case False
  then have pos: "1 \<le> length s" by (cases s) simp_all
  show ?thesis
  proof (cases "find (\<lambda>t. length t \<le> length s \<and> drop (length s - length t) s = t) unicodeSpaces")
    case None
    then show ?thesis using False pos by (simp add: spaceWidthLast_def)
  next
    case (Some t)
    then have "length t \<le> length s" by (auto simp: find_Some_iff)
    then show ?thesis using False Some pos by (simp add: spaceWidthLast_def)
  qed
qed

function trimLeft :: "bytes \<Rightarrow> bytes" where
  "trimLeft s = (if spaceWidth s = 0 then s else trimLeft (drop (spaceWidth s) s))"
  by pat_completeness auto
termination
proof (relation "measure length")
  show "wf (measure length)" by simp
next
  fix s :: bytes
  assume "spaceWidth s \<noteq> 0"
  moreover have "spaceWidth s \<le> length s" by (rule spaceWidth_le)
  ultimately show "(drop (spaceWidth s) s, s) \<in> measure length" by simp
qed

function trimRight :: "bytes \<Rightarrow> bytes" where
  "trimRight s = (if spaceWidthLast s = 0 then s else trimRight (take (length s - spaceWidthLast s) s))"
  by pat_completeness auto
termination
proof (relation "measure length")
  show "wf (measure length)" by simp
next
  fix s :: bytes
  assume "spaceWidthLast s \<noteq> 0"
  moreover have "spaceWidthLast s \<le> length s" by (rule spaceWidthLast_le)
  ultimately show "(take (length s - spaceWidthLast s) s, s) \<in> measure length" by simp
qed

definition TrimSpace :: "bytes \<Rightarrow> bytes" where
  "TrimSpace s = trimRight (trimLeft s)"

declare trimLeft.simps [simp del]
declare trimRight.simps [simp del]

section \<open>The inner loops of the attribute scanners\<close>

text \<open>
  Every inner loop of \<open>parseAttributes\<close> and \<open>extractNamespaces\<close> has the shape
  \<open>for i < len(attrs) && P(attrs[i]) { i++ }\<close>; \<open>scan P attrs i\<close> is the value of
  \<open>i\<close> after it.
\<close>

function scan :: "(char \<Rightarrow> bool) \<Rightarrow> bytes \<Rightarrow> nat \<Rightarrow> nat" where
  "scan P a i = (if i < length a \<and> P (a ! i) then scan P a (Suc i) else i)"
  by pat_completeness auto
termination
  by (relation "measure (\<lambda>(P, a, i). length a - i)") auto

declare scan.simps [simp del]

text \<open>The white space skipped before a name, and the narrower set skipped after \<open>=\<close>.\<close>

definition isSpace4 :: "char \<Rightarrow> bool" where
  "isSpace4 c = (c = CHR 0x20 \<or> c = CHR 0x09 \<or> c = CHR 0x0A \<or> c = CHR 0x0D)"

definition isSpace2 :: "char \<Rightarrow> bool" where
  "isSpace2 c = (c = CHR 0x20 \<or> c = CHR 0x09)"

definition notEq :: "char \<Rightarrow> bool" where
  "notEq c = (c \<noteq> CHR ''='')"

definition isQuote :: "char \<Rightarrow> bool" where
  "isQuote c = (c = CHR 0x22 \<or> c = CHR 0x27)"

lemma scan_ge: "i \<le> scan P a i"
proof (induction P a i rule: scan.induct)
  case (1 P a i)
  show ?case
  proof (cases "i < length a \<and> P (a ! i)")
    case True
    then have "Suc i \<le> scan P a (Suc i)" using 1 by simp
    then show ?thesis using True by (subst scan.simps) simp
  next
    case False
    then show ?thesis by (subst scan.simps) auto
  qed
qed

lemma scan_le: "i \<le> length a \<Longrightarrow> scan P a i \<le> length a"
proof (induction P a i rule: scan.induct)
  case (1 P a i)
  show ?case
  proof (cases "i < length a \<and> P (a ! i)")
    case True
    then have "scan P a (Suc i) \<le> length a" using 1 by simp
    then show ?thesis using True by (subst scan.simps) simp
  next
    case False
    then show ?thesis using 1(2) by (subst scan.simps) auto
  qed
qed

section \<open>The data model\<close>

text \<open>
  Elements and content nodes live in two stores, one per Go pointer type; a pointer is
  an index into its store, and \<open>nil\<close> is \<open>None\<close>. An \<open>XMLNode\<close> interface value is
  a pointer of either type. The integer fields that the source only ever assigns from
  \<open>len(...)\<close> or 0 (\<open>start\<close>, \<open>end\<close>, \<open>siblingIndex\<close>) are natural numbers.
\<close>

datatype NodeType = RootNode | ElementNode | AttributeNode | TextNode | CommentNode

datatype XMLNode = ElemPtr nat | ContentPtr nat

record XMLContentNode =
  c_start :: nat
  c_end :: nat
  nodeType :: NodeType
  c_parent :: "nat option"
  c_siblingIndex :: nat

record XMLAttribute =
  attrName :: string
  attrValue :: string

text \<open>
  A Go \<open>map[string]string\<close> is an association list with one entry per key
  (\<open>m[k] = v\<close> is \<open>AList.update k v m\<close>); the \<open>nil\<close> map is \<open>None\<close>.
\<close>

type_synonym gomap = "(string \<times> string) list"

definition mapGet :: "gomap option \<Rightarrow> string \<Rightarrow> string" where
  "mapGet m k = (case m of None \<Rightarrow> [] | Some kvs \<Rightarrow> (case map_of kvs k of None \<Rightarrow> [] | Some v \<Rightarrow> v))"

definition mapLen :: "gomap option \<Rightarrow> nat" where
  "mapLen m = (case m of None \<Rightarrow> 0 | Some kvs \<Rightarrow> length kvs)"

text \<open>\<open>namespaces[k] = v\<close>, after \<open>if namespaces == nil { namespaces = make(...) }\<close>.\<close>

definition mapSetMake :: "gomap option \<Rightarrow> string \<Rightarrow> string \<Rightarrow> gomap option" where
  "mapSetMake m k v = Some (AList.update k v (case m of None \<Rightarrow> [] | Some kvs \<Rightarrow> kvs))"

record XMLElement =
  Name :: string
  children :: "XMLNode list"
  parent :: "nat option"
  Attributes :: "XMLAttribute list"
  localName :: string
  prefix :: string
  namespaceURI :: string
  namespaces :: "gomap option"
  siblingIndex :: nat
  rawContent :: bytes

text \<open>
  What \<open>getElementFromPool\<close> hands out: the pool's \<open>New\<close> builds it, and
  \<open>returnElementToPool\<close> resets a recycled element to it (the four name fields are
  overwritten by \<open>handleStartElement\<close> before anything reads them).
\<close>

definition pooledElement :: XMLElement where
  "pooledElement = \<lparr>Name = [], children = [], parent = None, Attributes = [], localName = [],
     prefix = [], namespaceURI = [], namespaces = None, siblingIndex = 0, rawContent = []\<rparr>"

text \<open>
  What the content-node pool's \<open>New\<close> builds, \<open>&XMLContentNode{}\<close>: every field zero
  (the zero \<open>xpath.NodeType\<close> is \<open>RootNode\<close>).
\<close>

definition newContentNode :: XMLContentNode where
  "newContentNode = \<lparr>c_start = 0, c_end = 0, nodeType = RootNode, c_parent = None,
     c_siblingIndex = 0\<rparr>"

section \<open>parseAttributes\<close>

text \<open>
  One pass through the body of a scanner's outer loop either leaves the loop
  (\<open>Break\<close>), panics (\<open>Crash\<close>), or goes round again with a new \<open>i\<close> and a new
  accumulator (\<open>Continue\<close>).
\<close>

datatype 'a loop = Break | Crash | Continue nat 'a

definition attrBody :: "bytes \<Rightarrow> nat \<Rightarrow> XMLAttribute list \<Rightarrow> XMLAttribute list loop" where
  "attrBody attrs i0 acc =
     (let i = scan isSpace4 attrs i0 in
      if i \<ge> length attrs then Break
      else
        let nameStart = i; i = scan notEq attrs i in
        if i \<ge> length attrs then Break
        else
          (case slice attrs nameStart i of
             None \<Rightarrow> Crash
           | Some nb \<Rightarrow>
               let name = TrimSpace nb; i = Suc i; i = scan isSpace2 attrs i in
               if i \<ge> length attrs then Break
               else
                 (case index attrs i of
                    None \<Rightarrow> Crash
                  | Some quote \<Rightarrow>
                      if quote \<noteq> CHR 0x22 \<and> quote \<noteq> CHR 0x27 then Break
                      else
                        let i = Suc i; valueStart = i; i = scan (\<lambda>c. c \<noteq> quote) attrs i in
                        (case slice attrs valueStart i of
                           None \<Rightarrow> Crash
                         | Some v \<Rightarrow>
                             Continue (Suc i) (acc @ [\<lparr>attrName = name, attrValue = v\<rparr>])))))"

lemma attrBody_advances: "attrBody attrs i acc = Continue i' acc' \<Longrightarrow> i < i'"
proof -
  assume a: "attrBody attrs i acc = Continue i' acc'"
  define i1 where "i1 = scan isSpace4 attrs i"
  define i2 where "i2 = scan notEq attrs i1"
  define i4 where "i4 = scan isSpace2 attrs (Suc i2)"
  have 1: "i \<le> i1" unfolding i1_def by (rule scan_ge)
  have 2: "i1 \<le> i2" unfolding i2_def by (rule scan_ge)
  have 4: "Suc i2 \<le> i4" unfolding i4_def by (rule scan_ge)
  have "\<exists>q. i' = Suc (scan (\<lambda>c. c \<noteq> q) attrs (Suc i4))"
    using a unfolding attrBody_def Let_def i1_def i2_def i4_def
    by (auto split: if_splits option.splits)
  then obtain q where "i' = Suc (scan (\<lambda>c. c \<noteq> q) attrs (Suc i4))" by blast
  moreover have "Suc i4 \<le> scan (\<lambda>c. c \<noteq> q) attrs (Suc i4)" by (rule scan_ge)
  ultimately show ?thesis using 1 2 4 by linarith
qed

function attrLoop :: "bytes \<Rightarrow> nat \<Rightarrow> XMLAttribute list \<Rightarrow> XMLAttribute list option" where
  "attrLoop attrs i acc =
     (if i < length attrs then
        (case attrBody attrs i acc of
           Break \<Rightarrow> Some acc
         | Crash \<Rightarrow> None
         | Continue i' acc' \<Rightarrow> attrLoop attrs i' acc')
      else Some acc)"
  by pat_completeness auto
termination
proof (relation "measure (\<lambda>(attrs, i, acc). length attrs - i)")
  show "wf (measure (\<lambda>(attrs, i, acc). length attrs - i))" by simp
next
  fix attrs :: bytes and i :: nat and acc acc' :: "XMLAttribute list" and i' :: nat
  assume "i < length attrs" and "attrBody attrs i acc = Continue i' acc'"
  then have "i < i'" and "i < length attrs" by (auto dest: attrBody_advances)
  then show "((attrs, i', acc'), (attrs, i, acc)) \<in> measure (\<lambda>(attrs, i, acc). length attrs - i)"
    by simp
qed

declare attrLoop.simps [simp del]

text \<open>The counting loop at the head of \<open>parseAttributes\<close>: the number of \<open>=\<close> bytes.\<close>

definition countEq :: "bytes \<Rightarrow> nat" where
  "countEq a = length (filter (\<lambda>c. c = CHR ''='') a)"

text \<open>
  \<open>parseAttributes\<close> counts the \<open>=\<close> bytes, returns at once when there is none, and
  otherwise empties \<open>elem.Attributes\<close> and appends what the loop recognises. The
  element is passed by pointer in Go; here its new value is returned.
\<close>

definition parseAttributes :: "bytes \<Rightarrow> XMLElement \<Rightarrow> XMLElement option" where
  "parseAttributes attrs elem =
     (let attrCount = countEq attrs in
      if attrCount = 0 then Some elem
      else map_option (\<lambda>as. elem\<lparr>Attributes := as\<rparr>) (attrLoop attrs 0 []))"

section \<open>extractNamespaces\<close>

text \<open>
  The quick check \<open>len(nameBytes) < 5 || (nameBytes[0] != 'x' && nameBytes[0] != 'X')\<close>
  reads \<open>nameBytes[0]\<close> only when the length test fails. \<open>nsSkip\<close> is the block under
  it, which steps over \<open>=\<close> and a quoted value; \<open>nsDecl\<close> is the rest of the loop body,
  from \<open>name := string(nameBytes)\<close> on. Both start with \<open>i\<close> on the \<open>=\<close>.
\<close>

definition nsSkip :: "bytes \<Rightarrow> nat \<Rightarrow> gomap option \<Rightarrow> gomap option loop" where
  "nsSkip attrs i0 ns =
     (let i = Suc i0; i = scan isSpace2 attrs i in
      if i < length attrs \<and> isQuote (attrs ! i) then
        let quote = attrs ! i; i = Suc i; i = scan (\<lambda>c. c \<noteq> quote) attrs i in
        Continue (Suc i) ns
      else Continue i ns)"

definition nsDecl :: "bytes \<Rightarrow> nat \<Rightarrow> string \<Rightarrow> gomap option \<Rightarrow> gomap option loop" where
  "nsDecl attrs i0 name ns =
     (let i = Suc i0; i = scan isSpace2 attrs i in
      if i \<ge> length attrs then Break
      else
        (case index attrs i of
           None \<Rightarrow> Crash
         | Some quote \<Rightarrow>
             if quote \<noteq> CHR 0x22 \<and> quote \<noteq> CHR 0x27 then Break
             else
               let i = Suc i; valueStart = i; i = scan (\<lambda>c. c \<noteq> quote) attrs i in
               (case slice attrs valueStart i of
                  None \<Rightarrow> Crash
                | Some v \<Rightarrow>
                    if name = ''xmlns'' then Continue (Suc i) (mapSetMake ns [] v)
                    else if HasPrefix name ''xmlns:'' then
                      (case slice name 6 (length name) of
                         None \<Rightarrow> Crash
                       | Some pre \<Rightarrow> Continue (Suc i) (mapSetMake ns pre v))
                    else Continue (Suc i) ns)))"

definition nsBody :: "bytes \<Rightarrow> nat \<Rightarrow> gomap option \<Rightarrow> gomap option loop" where
  "nsBody attrs i0 ns =
     (let i = scan isSpace4 attrs i0 in
      if i \<ge> length attrs then Break
      else
        let nameStart = i; i = scan notEq attrs i in
        if i \<ge> length attrs then Break
        else
          (case slice attrs nameStart i of
             None \<Rightarrow> Crash
           | Some nb \<Rightarrow>
               let nameBytes = TrimSpace nb in
               if length nameBytes < 5 then nsSkip attrs i ns
               else
                 (case index nameBytes 0 of
                    None \<Rightarrow> Crash
                  | Some c \<Rightarrow>
                      if c \<noteq> CHR ''x'' \<and> c \<noteq> CHR ''X'' then nsSkip attrs i ns
                      else nsDecl attrs i nameBytes ns)))"

lemma nsSkip_advances: "nsSkip attrs i ns = Continue i' ns' \<Longrightarrow> i < i'"
proof -
  assume a: "nsSkip attrs i ns = Continue i' ns'"
  define i4 where "i4 = scan isSpace2 attrs (Suc i)"
  have 4: "Suc i \<le> i4" unfolding i4_def by (rule scan_ge)
  have "i' = i4 \<or> (\<exists>q. i' = Suc (scan (\<lambda>c. c \<noteq> q) attrs (Suc i4)))"
    using a unfolding nsSkip_def Let_def i4_def by (auto split: if_splits)
  then show ?thesis
  proof
    assume "i' = i4"
    then show ?thesis using 4 by linarith
  next
    assume "\<exists>q. i' = Suc (scan (\<lambda>c. c \<noteq> q) attrs (Suc i4))"
    then obtain q where "i' = Suc (scan (\<lambda>c. c \<noteq> q) attrs (Suc i4))" by blast
    moreover have "Suc i4 \<le> scan (\<lambda>c. c \<noteq> q) attrs (Suc i4)" by (rule scan_ge)
    ultimately show ?thesis using 4 by linarith
  qed
qed

lemma nsDecl_advances: "nsDecl attrs i name ns = Continue i' ns' \<Longrightarrow> i < i'"
proof -
  assume a: "nsDecl attrs i name ns = Continue i' ns'"
  define i4 where "i4 = scan isSpace2 attrs (Suc i)"
  have 4: "Suc i \<le> i4" unfolding i4_def by (rule scan_ge)
  have "\<exists>q. i' = Suc (scan (\<lambda>c. c \<noteq> q) attrs (Suc i4))"
    using a unfolding nsDecl_def Let_def i4_def by (auto split: if_splits option.splits)
  then obtain q where "i' = Suc (scan (\<lambda>c. c \<noteq> q) attrs (Suc i4))" by blast
  moreover have "Suc i4 \<le> scan (\<lambda>c. c \<noteq> q) attrs (Suc i4)" by (rule scan_ge)
  ultimately show ?thesis using 4 by linarith
qed

lemma nsBody_advances: "nsBody attrs i ns = Continue i' ns' \<Longrightarrow> i < i'"
proof -
  assume a: "nsBody attrs i ns = Continue i' ns'"
  define i1 where "i1 = scan isSpace4 attrs i"
  define i2 where "i2 = scan notEq attrs i1"
  have 1: "i \<le> i1" unfolding i1_def by (rule scan_ge)
  have 2: "i1 \<le> i2" unfolding i2_def by (rule scan_ge)
  have "nsSkip attrs i2 ns = Continue i' ns' \<or> (\<exists>nm. nsDecl attrs i2 nm ns = Continue i' ns')"
    using a unfolding nsBody_def Let_def i1_def i2_def by (auto split: if_splits option.splits)
  then have "i2 < i'" by (auto dest: nsSkip_advances nsDecl_advances)
  then show ?thesis using 1 2 by linarith
qed

function nsLoop :: "bytes \<Rightarrow> nat \<Rightarrow> gomap option \<Rightarrow> gomap option option" where
  "nsLoop attrs i ns =
     (if i < length attrs then
        (case nsBody attrs i ns of
           Break \<Rightarrow> Some ns
         | Crash \<Rightarrow> None
         | Continue i' ns' \<Rightarrow> nsLoop attrs i' ns')
      else Some ns)"
  by pat_completeness auto
termination
proof (relation "measure (\<lambda>(attrs, i, ns). length attrs - i)")
  show "wf (measure (\<lambda>(attrs, i, ns). length attrs - i))" by simp
next
  fix attrs :: bytes and i :: nat and ns ns' :: "gomap option" and i' :: nat
  assume "i < length attrs" and "nsBody attrs i ns = Continue i' ns'"
  then have "i < i'" and "i < length attrs" by (auto dest: nsBody_advances)
  then show "((attrs, i', ns'), (attrs, i, ns)) \<in> measure (\<lambda>(attrs, i, ns). length attrs - i)"
    by simp
qed

declare nsLoop.simps [simp del]

text \<open>The outer \<open>None\<close> is a panic; \<open>Some None\<close> is the \<open>nil\<close> map the source returns.\<close>

definition extractNamespaces :: "bytes \<Rightarrow> gomap option option" where
  "extractNamespaces attrs = (if length attrs = 0 then Some None else nsLoop attrs 0 None)"

section \<open>The parser\<close>

text \<open>
  \<open>map[string]bool\<close> for the stream targets, as an association list; \<open>nil\<close> is \<open>None\<close>.
  The context and the reader of the Go struct are the tokenizer's business: the parser
  sees them only as the list of events it is given. \<open>once\<close> is whether the
  \<open>sync.Once\<close> has fired, \<open>ch\<close> the channel handle (\<open>nil\<close> until \<open>Stream\<close> makes it).
\<close>

record Parser =
  streamNames :: "(string \<times> bool) list option"
  bufferSize :: int
  once :: bool
  ch :: "nat option"

definition NewParser :: "string list \<Rightarrow> int \<Rightarrow> Parser" where
  "NewParser names bufSize =
     \<lparr>streamNames =
        (if length names > 0 then Some (fold (\<lambda>name m. AList.update name True m) names [])
         else None),
      bufferSize = (if bufSize \<le> 0 then 8 else bufSize),
      once = False,
      ch = None\<rparr>"

text \<open>\<open>len(p.streamNames) > 0 && p.streamNames[name]\<close>; a missing key reads as false.\<close>

definition isStreamName :: "Parser \<Rightarrow> string \<Rightarrow> bool" where
  "isStreamName p name =
     (case streamNames p of
        None \<Rightarrow> False
      | Some kvs \<Rightarrow> length kvs > 0 \<and> (case map_of kvs name of None \<Rightarrow> False | Some b \<Rightarrow> b))"

text \<open>
  The state the parse loop works on: the two stores, the two pools
  (\<open>xmlElementPool\<close> and \<open>xmlContentNodePool\<close>, each the list of the objects put back and
  not yet taken out again, the last one put first), the \<open>parseState\<close> of the source
  (\<open>stack\<close>, innermost last, and \<open>depth\<close>), and \<open>sent\<close>, everything sent on the
  output channel so far, oldest first.
\<close>

record machine =
  elems :: "XMLElement list"
  contents :: "XMLContentNode list"
  elemPool :: "nat list"
  contentPool :: "nat list"
  stack :: "nat list"
  depth :: int
  sent :: "nat list"

definition initial :: machine where
  "initial = \<lparr>elems = [], contents = [], elemPool = [], contentPool = [], stack = [],
     depth = 0, sent = []\<rparr>"

text \<open>
  \<open>sync.Pool.Get\<close> returns an object that was put back, if it has one, and the result of
  \<open>New\<close> otherwise. Here it returns the object put back last; with nothing put back it
  makes a new object at the end of the store. The pointer comes with the state in which
  it has been taken out.
\<close>

definition getElementFromPool :: "machine \<Rightarrow> nat \<times> machine" where
  "getElementFromPool m =
     (case elemPool m of
        [] \<Rightarrow> (length (elems m), m\<lparr>elems := elems m @ [pooledElement]\<rparr>)
      | e # rest \<Rightarrow> (e, m\<lparr>elemPool := rest\<rparr>))"

definition getContentNodeFromPool :: "machine \<Rightarrow> nat \<times> machine" where
  "getContentNodeFromPool m =
     (case contentPool m of
        [] \<Rightarrow> (length (contents m), m\<lparr>contents := contents m @ [newContentNode]\<rparr>)
      | c # rest \<Rightarrow> (c, m\<lparr>contentPool := rest\<rparr>))"

text \<open>
  The tokenizer's events. A start tag comes with the name and the raw attribute bytes
  that \<open>gosax.Name\<close> splits off, and with the full tag. End of input, a read error and
  cancellation all end the list. \<open>EventOther\<close> is any event type the \<open>switch\<close> has no
  case for.
\<close>

datatype event =
    EventStart bytes bytes bytes
  | EventEnd
  | EventText bytes
  | EventCData bytes
  | EventComment bytes
  | EventOther

definition checkAndStreamElement :: "Parser \<Rightarrow> nat \<Rightarrow> machine \<Rightarrow> machine" where
  "checkAndStreamElement p elem m =
     (let shouldStream = isStreamName p (Name (elems m ! elem)) in
      if shouldStream then
        m\<lparr>elems := (elems m)[elem := (elems m ! elem)\<lparr>parent := None\<rparr>],
          sent := sent m @ [elem]\<rparr>
      else m)"

text \<open>
  Linking the element \<open>elem\<close> as the last child of the stack top, if there is one: the
  three assignments under \<open>if len(state.stack) > 0\<close>, in the order of the source.
\<close>

definition linkElement :: "nat \<Rightarrow> machine \<Rightarrow> machine" where
  "linkElement elem m =
     (if length (stack m) > 0 then
        let par = last (stack m);
            m1 = m\<lparr>elems := (elems m)[elem := (elems m ! elem)
                     \<lparr>parent := Some par, siblingIndex := length (children (elems m ! par))\<rparr>]\<rparr>
        in m1\<lparr>elems := (elems m1)[par := (elems m1 ! par)
                  \<lparr>children := children (elems m1 ! par) @ [ElemPtr elem]\<rparr>]\<rparr>
      else m)"

definition splitName :: "string \<Rightarrow> string \<times> string" where
  "splitName nameStr =
     (case IndexByte nameStr (CHR '':'') of
        None \<Rightarrow> ([], nameStr)
      | Some idx \<Rightarrow> (take idx nameStr, drop (Suc idx) nameStr))"

definition nsContextOf :: "gomap option \<Rightarrow> gomap option \<Rightarrow> gomap option" where
  "nsContextOf parentNS elementNamespaces =
     (if mapLen elementNamespaces > 0 then
        Some (fold (\<lambda>(k, v) m. AList.update k v m)
                (case elementNamespaces of None \<Rightarrow> [] | Some kvs \<Rightarrow> kvs)
                (case parentNS of None \<Rightarrow> [] | Some kvs \<Rightarrow> kvs))
      else if parentNS \<noteq> None then parentNS
      else None)"

definition isSelfClosing :: "bytes \<Rightarrow> bool" where
  "isSelfClosing fullTag =
     (length fullTag \<ge> 2 \<and> fullTag ! (length fullTag - 2) = CHR ''/''
       \<and> fullTag ! (length fullTag - 1) = CHR ''>'')"

definition handleStartElement ::
  "Parser \<Rightarrow> machine \<Rightarrow> bytes \<Rightarrow> bytes \<Rightarrow> bytes \<Rightarrow> gomap option \<Rightarrow> machine option" where
  "handleStartElement p m name attrs fullTag elementNamespaces =
     (let nameStr = name;
          (pre, loc) = splitName nameStr;
          parentNS = (if length (stack m) > 0 then namespaces (elems m ! last (stack m)) else None);
          nsContext = nsContextOf parentNS elementNamespaces;
          uri = (if nsContext \<noteq> None then
                   (if pre \<noteq> [] then mapGet nsContext pre else mapGet nsContext [])
                 else []);
          (e, m0) = getElementFromPool m;
          elem = (elems m0 ! e)\<lparr>Name := nameStr, localName := loc, prefix := pre,
                   namespaceURI := uri, namespaces := nsContext\<rparr>
      in
      (case (if length attrs > 0 then parseAttributes attrs elem else Some elem) of
         None \<Rightarrow> None
       | Some elem' \<Rightarrow>
           let m' = linkElement e (m0\<lparr>elems := (elems m0)[e := elem']\<rparr>) in
           if isSelfClosing fullTag then Some (checkAndStreamElement p e m')
           else Some (m'\<lparr>stack := stack m' @ [e], depth := depth m' + 1\<rparr>)))"

definition handleEndElement :: "Parser \<Rightarrow> machine \<Rightarrow> machine" where
  "handleEndElement p m =
     (if length (stack m) = 0 then m
      else
        let elem = last (stack m);
            m' = checkAndStreamElement p elem (m\<lparr>stack := butlast (stack m)\<rparr>)
        in m'\<lparr>depth := depth m' - 1\<rparr>)"

text \<open>
  The block that the text, CDATA and comment cases of \<open>parse\<close> each spell out: a content
  node from the pool, every field of it overwritten, over the range the bytes take in
  the stack top's \<open>rawContent\<close>, appended to its children.
\<close>

definition appendContent :: "NodeType \<Rightarrow> bytes \<Rightarrow> machine \<Rightarrow> machine" where
  "appendContent kind content m =
     (let par = last (stack m);
          (node, m0) = getContentNodeFromPool m;
          pe = elems m0 ! par;
          new = \<lparr>c_start = length (rawContent pe),
                 c_end = length (rawContent pe @ content),
                 nodeType = kind,
                 c_parent = Some par,
                 c_siblingIndex = length (children pe)\<rparr>
      in m0\<lparr>elems := (elems m0)[par := pe\<lparr>children := children pe @ [ContentPtr node],
                                           rawContent := rawContent pe @ content\<rparr>],
            contents := (contents m0)[node := new]\<rparr>)"

fun handleEvent :: "Parser \<Rightarrow> event \<Rightarrow> machine \<Rightarrow> machine option" where
  "handleEvent p (EventStart name attrs fullTag) m =
     (case (if length attrs > 0 \<and> Contains attrs ''xmlns'' then extractNamespaces attrs
            else Some None) of
        None \<Rightarrow> None
      | Some elementNamespaces \<Rightarrow> handleStartElement p m name attrs fullTag elementNamespaces)"
| "handleEvent p EventEnd m = Some (handleEndElement p m)"
| "handleEvent p (EventText b) m =
     (if length (stack m) > 0 \<and> length b > 0 then Some (appendContent TextNode b m) else Some m)"
| "handleEvent p (EventCData b) m =
     (if length (stack m) > 0 then
        if length b > 12 then
          (case slice b 9 (length b - 3) of
             None \<Rightarrow> None
           | Some content \<Rightarrow>
               if length content > 0 then Some (appendContent TextNode content m) else Some m)
        else Some m
      else Some m)"
| "handleEvent p (EventComment b) m =
     (if length (stack m) > 0 then
        if length b > 7 then
          (case slice b 4 (length b - 3) of
             None \<Rightarrow> None
           | Some content \<Rightarrow> Some (appendContent CommentNode content m))
        else Some m
      else Some m)"
| "handleEvent p EventOther m = Some m"

fun parseEvents :: "Parser \<Rightarrow> event list \<Rightarrow> machine \<Rightarrow> machine option" where
  "parseEvents p [] m = Some m"
| "parseEvents p (e # es) m =
     (case handleEvent p e m of None \<Rightarrow> None | Some m' \<Rightarrow> parseEvents p es m')"

definition parse :: "Parser \<Rightarrow> event list \<Rightarrow> machine option" where
  "parse p evs = parseEvents p evs initial"

section \<open>Release\<close>

fun elemPtrs :: "XMLNode list \<Rightarrow> nat list" where
  "elemPtrs [] = []"
| "elemPtrs (ElemPtr e # ns) = e # elemPtrs ns"
| "elemPtrs (ContentPtr c # ns) = elemPtrs ns"

fun contentPtrs :: "XMLNode list \<Rightarrow> nat list" where
  "contentPtrs [] = []"
| "contentPtrs (ElemPtr e # ns) = contentPtrs ns"
| "contentPtrs (ContentPtr c # ns) = c # contentPtrs ns"

text \<open>The number of entries in all child lists of the store.\<close>

definition childEntries :: "machine \<Rightarrow> nat" where
  "childEntries m = sum_list (map (\<lambda>e. length (children e)) (elems m))"

lemma elemPtrs_length: "length (elemPtrs ns) \<le> length ns"
  by (induction ns rule: elemPtrs.induct) simp_all

lemma entries_update:
  "i < length xs \<Longrightarrow>
     sum_list (map f (xs[i := y])) + f (xs ! i) = sum_list (map f xs) + (f y :: nat)"
proof (induction xs arbitrary: i)
  case Nil
  then show ?case by simp
next
  case (Cons x xs)
  then show ?case by (cases i) auto
qed

text \<open>
  The loop of \<open>returnElementToPool\<close>, on its work list \<open>stk\<close> (the top is the last
  entry): it pops an element, pushes its element children, puts its content children
  back into their pool, clears the element's \<open>children\<close>, \<open>parent\<close>, \<open>Attributes\<close>,
  \<open>namespaces\<close>, \<open>siblingIndex\<close> and \<open>rawContent\<close>, and puts it back into its pool.
  Every Go pointer points to an object; an index outside the store stands for none and
  is passed over.
\<close>

function returnLoop :: "nat list \<Rightarrow> machine \<Rightarrow> machine" where
  "returnLoop stk m =
     (if length stk > 0 then
        let current = last stk; stk' = butlast stk in
        if current < length (elems m) then
          let kids = children (elems m ! current);
              cleared = (elems m ! current)\<lparr>children := [], parent := None, Attributes := [],
                          namespaces := None, siblingIndex := 0, rawContent := []\<rparr>
          in returnLoop (stk' @ elemPtrs kids)
               (m\<lparr>elems := (elems m)[current := cleared],
                  contentPool := rev (contentPtrs kids) @ contentPool m,
                  elemPool := current # elemPool m\<rparr>)
        else returnLoop stk' m
      else m)"
  by pat_completeness auto
termination
proof (relation "measure (\<lambda>(stk, m). childEntries m + length stk)")
  show "wf (measure (\<lambda>(stk, m). childEntries m + length stk))" by simp
next
  fix stk :: "nat list" and m :: machine and current stk' kids cleared
  assume pos: "0 < length stk" and c: "current = last stk" and s: "stk' = butlast stk"
    and v: "current < length (elems m)" and k: "kids = children (elems m ! current)"
    and cl: "cleared = (elems m ! current)\<lparr>children := [], parent := None, Attributes := [],
                          namespaces := None, siblingIndex := 0, rawContent := []\<rparr>"
  have "sum_list (map (\<lambda>e. length (children e)) ((elems m)[current := cleared]))
          + length (children (elems m ! current))
        = sum_list (map (\<lambda>e. length (children e)) (elems m)) + length (children cleared)"
    using v by (rule entries_update)
  then have "childEntries (m\<lparr>elems := (elems m)[current := cleared],
                  contentPool := rev (contentPtrs kids) @ contentPool m,
                  elemPool := current # elemPool m\<rparr>) + length kids = childEntries m"
    using k cl by (simp add: childEntries_def)
  moreover have "length (elemPtrs kids) \<le> length kids" by (rule elemPtrs_length)
  moreover have "length stk' < length stk" using pos s by simp
  ultimately show "((stk' @ elemPtrs kids,
           m\<lparr>elems := (elems m)[current := cleared],
              contentPool := rev (contentPtrs kids) @ contentPool m,
              elemPool := current # elemPool m\<rparr>), (stk, m))
         \<in> measure (\<lambda>(stk, m). childEntries m + length stk)"
    by simp
next
  fix stk :: "nat list" and m :: machine and current stk'
  assume "0 < length stk" and "stk' = butlast stk"
  then show "((stk', m), (stk, m)) \<in> measure (\<lambda>(stk, m). childEntries m + length stk)"
    by simp
qed

declare returnLoop.simps [simp del]

text \<open>\<open>Release\<close> is \<open>returnElementToPool\<close>, which starts the loop on the element alone.\<close>

definition returnElementToPool :: "nat \<Rightarrow> machine \<Rightarrow> machine" where
  "returnElementToPool elem m = returnLoop [elem] m"

definition Release :: "nat \<Rightarrow> machine \<Rightarrow> machine" where
  "Release e m = returnElementToPool e m"

text \<open>
  The producer and a consumer side by side: the parser handles an event, or the consumer
  releases an element it has received. \<open>run\<close> takes the steps in the order given.
\<close>

datatype action = Token event | ConsumerRelease nat

fun run :: "Parser \<Rightarrow> action list \<Rightarrow> machine \<Rightarrow> machine option" where
  "run p [] m = Some m"
| "run p (Token ev # as) m =
     (case handleEvent p ev m of None \<Rightarrow> None | Some m' \<Rightarrow> run p as m')"
| "run p (ConsumerRelease e # as) m = run p as (Release e m)"

section \<open>Stream\<close>

text \<open>
  What \<open>Stream\<close> touches outside the parser: the channels made so far and the
  goroutines started so far, each goroutine recorded by the channel it parses into.
  \<open>sync.Once\<close> runs its function on the first \<open>Do\<close> only.
\<close>

record runtime =
  channels :: nat
  goroutines :: "nat list"

definition Stream :: "Parser \<Rightarrow> runtime \<Rightarrow> nat option \<times> Parser \<times> runtime" where
  "Stream p rt =
     (if once p then (ch p, p, rt)
      else
        let c = channels rt;
            p' = p\<lparr>once := True, ch := Some c\<rparr>;
            rt' = rt\<lparr>channels := Suc c, goroutines := goroutines rt @ [c]\<rparr>
        in (ch p', p', rt'))"

text \<open>\<open>n\<close> calls of \<open>Stream\<close> in a row: the handles they return, in order, and the state after.\<close>

fun streamCalls :: "nat \<Rightarrow> Parser \<Rightarrow> runtime \<Rightarrow> nat option list \<times> Parser \<times> runtime" where
  "streamCalls 0 p rt = ([], p, rt)"
| "streamCalls (Suc n) p rt =
     (case Stream p rt of (h, p', rt') \<Rightarrow>
        (case streamCalls n p' rt' of (hs, p'', rt'') \<Rightarrow> (h # hs, p'', rt'')))"

section \<open>InnerText\<close>

text \<open>
  \<open>collectText\<close> recurses through the store, which terminates on a tree and not on a
  cyclic store; the first argument bounds the depth of the recursion, and \<open>None\<close> is
  either that bound reached or a slice out of range.
\<close>

fun collectText :: "nat \<Rightarrow> machine \<Rightarrow> nat \<Rightarrow> bytes option"
  and collectNodes :: "nat \<Rightarrow> machine \<Rightarrow> XMLNode list \<Rightarrow> bytes option" where
  "collectText 0 m e = None"
| "collectText (Suc n) m e = collectNodes n m (children (elems m ! e))"
| "collectNodes n m [] = Some []"
| "collectNodes n m (ContentPtr c # rest) =
     (let node = contents m ! c in
      case (if nodeType node = TextNode \<and> c_parent node \<noteq> None \<and> c_start node < c_end node
            then slice (rawContent (elems m ! the (c_parent node))) (c_start node) (c_end node)
            else Some []) of
        None \<Rightarrow> None
      | Some t \<Rightarrow> map_option (\<lambda>r. t @ r) (collectNodes n m rest))"
| "collectNodes n m (ElemPtr e # rest) =
     (case collectText n m e of
        None \<Rightarrow> None
      | Some t \<Rightarrow> map_option (\<lambda>r. t @ r) (collectNodes n m rest))"

fun isElemPtr :: "XMLNode \<Rightarrow> bool" where
  "isElemPtr (ElemPtr e) = True"
| "isElemPtr (ContentPtr c) = False"

definition InnerText :: "nat \<Rightarrow> machine \<Rightarrow> nat \<Rightarrow> bytes option" where
  "InnerText fuel m e =
     (let el = elems m ! e in
      if length (children el) = 0 then Some []
      else
        let hasElementChild = list_ex isElemPtr (children el) in
        if \<not> hasElementChild then Some (rawContent el)
        else collectText fuel m e)"

section \<open>The navigator\<close>

text \<open>
  The cursor of the source. \<open>currElement\<close> is \<open>nil\<close> on a content node;
  \<open>attributeIndex\<close> is a Go \<open>int\<close>, -1 off the attributes. A move returns the cursor
  after it and the boolean the source returns; \<open>None\<close> is an index out of range, where
  Go panics.
\<close>

record elementNavigator =
  root :: nat
  currNode :: XMLNode
  currElement :: "nat option"
  attributeIndex :: int

fun nodeParent :: "machine \<Rightarrow> XMLNode \<Rightarrow> nat option" where
  "nodeParent m (ElemPtr e) = parent (elems m ! e)"
| "nodeParent m (ContentPtr c) = c_parent (contents m ! c)"

fun getSiblingIndex :: "machine \<Rightarrow> XMLNode \<Rightarrow> nat" where
  "getSiblingIndex m (ElemPtr e) = siblingIndex (elems m ! e)"
| "getSiblingIndex m (ContentPtr c) = c_siblingIndex (contents m ! c)"

text \<open>
  The assignment every sibling and child move ends with: \<open>currNode\<close> becomes the
  node, \<open>currElement\<close> the node if it is an element and \<open>nil\<close> otherwise.
\<close>

fun moveOnto :: "elementNavigator \<Rightarrow> XMLNode \<Rightarrow> elementNavigator" where
  "moveOnto nav (ElemPtr e) = nav\<lparr>currNode := ElemPtr e, currElement := Some e\<rparr>"
| "moveOnto nav (ContentPtr c) = nav\<lparr>currNode := ContentPtr c, currElement := None\<rparr>"






definition MoveToPrevious :: "machine \<Rightarrow> elementNavigator \<Rightarrow> (elementNavigator \<times> bool) option" where
  "MoveToPrevious m nav =
     (if attributeIndex nav \<noteq> -1 then Some (nav, False)
      else
        (case nodeParent m (currNode nav) of
           None \<Rightarrow> Some (nav, False)
         | Some par \<Rightarrow>
             let idx = getSiblingIndex m (currNode nav) in
             if idx \<le> 0 then Some (nav, False)
             else if idx - 1 < length (children (elems m ! par)) then
               Some (moveOnto nav (children (elems m ! par) ! (idx - 1)), True)
             else None))"



section \<open>Well-linked stores\<close>

text \<open>
  A node pointer is valid when it points into its store. The stores are well linked
  when every child list holds valid nodes whose sibling index is their position, and
  every node with a parent is listed by that parent at its sibling index.
\<close>

fun validNode :: "machine \<Rightarrow> XMLNode \<Rightarrow> bool" where
  "validNode m (ElemPtr e) = (e < length (elems m))"
| "validNode m (ContentPtr c) = (c < length (contents m))"

definition childrenIndexed :: "machine \<Rightarrow> bool" where
  "childrenIndexed m =
     list_all (\<lambda>p. list_all (\<lambda>i. validNode m (children (elems m ! p) ! i)
                                  \<and> getSiblingIndex m (children (elems m ! p) ! i) = i)
                           [0..<length (children (elems m ! p))])
              [0..<length (elems m)]"

definition listedAtIndex :: "machine \<Rightarrow> XMLNode \<Rightarrow> bool" where
  "listedAtIndex m n =
     (case nodeParent m n of
        None \<Rightarrow> True
      | Some p \<Rightarrow> p < length (elems m)
          \<and> getSiblingIndex m n < length (children (elems m ! p))
          \<and> children (elems m ! p) ! getSiblingIndex m n = n)"

definition parentsListed :: "machine \<Rightarrow> bool" where
  "parentsListed m =
     (list_all (\<lambda>e. listedAtIndex m (ElemPtr e)) [0..<length (elems m)]
      \<and> list_all (\<lambda>c. listedAtIndex m (ContentPtr c)) [0..<length (contents m)])"

definition wellLinked :: "machine \<Rightarrow> bool" where
  "wellLinked m = (childrenIndexed m \<and> parentsListed m)"

text \<open>
  The parse loop keeps more than the links: every pointer on the stack is valid, and
  every element that was sent is valid and has no parent. The parser puts nothing back
  into a pool, so as long as no consumer has released anything both pools are empty.
\<close>

definition stackValid :: "machine \<Rightarrow> bool" where
  "stackValid m = list_all (\<lambda>e. e < length (elems m)) (stack m)"

definition sentDetached :: "machine \<Rightarrow> bool" where
  "sentDetached m = list_all (\<lambda>e. e < length (elems m) \<and> parent (elems m ! e) = None) (sent m)"

definition poolsEmpty :: "machine \<Rightarrow> bool" where
  "poolsEmpty m = (elemPool m = [] \<and> contentPool m = [])"

definition machineOk :: "machine \<Rightarrow> bool" where
  "machineOk m = (wellLinked m \<and> stackValid m \<and> sentDetached m \<and> poolsEmpty m)"

text \<open>
  The elements on the stack and the elements sent, each paired with its qualified name;
  \<open>keeps m m'\<close> says that \<open>m'\<close> still has every element of \<open>m\<close>, under the same name.
\<close>

definition sentOf :: "machine \<Rightarrow> (nat \<times> string) list" where
  "sentOf m = map (\<lambda>e. (e, Name (elems m ! e))) (sent m)"

definition openOf :: "machine \<Rightarrow> (nat \<times> string) list" where
  "openOf m = map (\<lambda>e. (e, Name (elems m ! e))) (stack m)"

definition keeps :: "machine \<Rightarrow> machine \<Rightarrow> bool" where
  "keeps m m' = (length (elems m) \<le> length (elems m')
     \<and> (\<forall>e < length (elems m). Name (elems m' ! e) = Name (elems m ! e)))"

definition isTarget :: "Parser \<Rightarrow> nat \<times> string \<Rightarrow> bool" where
  "isTarget p en = isStreamName p (snd en)"

section \<open>The words of the specification\<close>


text \<open>
  The elements a sequence of events closes, in closing order, as section 4.1 describes
  the assembler: a start tag makes the next element (elements are numbered in the order
  of their start tags, from \<open>k\<close>) and pushes it unless the tag is self-closing, in which
  case it is closed at once; an end tag closes the innermost open element, and is ignored
  when none is open. \<open>opened\<close> lists the open elements, innermost last, each with its
  qualified name.
\<close>

fun specClosed :: "event list \<Rightarrow> nat \<Rightarrow> (nat \<times> string) list \<Rightarrow> (nat \<times> string) list" where
  "specClosed [] k opened = []"
| "specClosed (EventStart name attrs fullTag # evs) k opened =
     (if isSelfClosing fullTag then (k, name) # specClosed evs (Suc k) opened
      else specClosed evs (Suc k) (opened @ [(k, name)]))"
| "specClosed (EventEnd # evs) k opened =
     (if opened = [] then specClosed evs k opened
      else last opened # specClosed evs k (butlast opened))"
| "specClosed (EventText b # evs) k opened = specClosed evs k opened"
| "specClosed (EventCData b # evs) k opened = specClosed evs k opened"
| "specClosed (EventComment b # evs) k opened = specClosed evs k opened"
| "specClosed (EventOther # evs) k opened = specClosed evs k opened"

section \<open>Example documents\<close>

definition itemParser :: Parser where
  "itemParser = NewParser [''item''] 0"

text \<open>\<^verbatim>\<open><item><!--c-->text</item>\<close> and the stores the parser builds from it.\<close>

definition commentDoc :: "event list" where
  "commentDoc =
     [EventStart ''item'' [] ''<item>'', EventComment ''<!--c-->'', EventText ''text'', EventEnd]"

definition commentTree :: machine where
  "commentTree =
     \<lparr>elems =
        [\<lparr>Name = ''item'', children = [ContentPtr 0, ContentPtr 1], parent = None,
          Attributes = [], localName = ''item'', prefix = [], namespaceURI = [],
          namespaces = None, siblingIndex = 0, rawContent = ''ctext''\<rparr>],
      contents =
        [\<lparr>c_start = 0, c_end = 1, nodeType = CommentNode, c_parent = Some 0, c_siblingIndex = 0\<rparr>,
         \<lparr>c_start = 1, c_end = 5, nodeType = TextNode, c_parent = Some 0, c_siblingIndex = 1\<rparr>],
      elemPool = [], contentPool = [], stack = [], depth = 0, sent = [0]\<rparr>"

text \<open>\<^verbatim>\<open><root><item>1</item><other>x</other><item>2</item></root>\<close> and its stores.\<close>

definition siblingsDoc :: "event list" where
  "siblingsDoc =
     [EventStart ''root'' [] ''<root>'',
      EventStart ''item'' [] ''<item>'', EventText ''1'', EventEnd,
      EventStart ''other'' [] ''<other>'', EventText ''x'', EventEnd,
      EventStart ''item'' [] ''<item>'', EventText ''2'', EventEnd,
      EventEnd]"

definition siblingsTree :: machine where
  "siblingsTree =
     \<lparr>elems =
        [\<lparr>Name = ''root'', children = [ElemPtr 1, ElemPtr 2, ElemPtr 3], parent = None,
          Attributes = [], localName = ''root'', prefix = [], namespaceURI = [],
          namespaces = None, siblingIndex = 0, rawContent = []\<rparr>,
         \<lparr>Name = ''item'', children = [ContentPtr 0], parent = None,
          Attributes = [], localName = ''item'', prefix = [], namespaceURI = [],
          namespaces = None, siblingIndex = 0, rawContent = ''1''\<rparr>,
         \<lparr>Name = ''other'', children = [ContentPtr 1], parent = Some 0,
          Attributes = [], localName = ''other'', prefix = [], namespaceURI = [],
          namespaces = None, siblingIndex = 1, rawContent = ''x''\<rparr>,
         \<lparr>Name = ''item'', children = [ContentPtr 2], parent = None,
          Attributes = [], localName = ''item'', prefix = [], namespaceURI = [],
          namespaces = None, siblingIndex = 2, rawContent = ''2''\<rparr>],
      contents =
        [\<lparr>c_start = 0, c_end = 1, nodeType = TextNode, c_parent = Some 1, c_siblingIndex = 0\<rparr>,
         \<lparr>c_start = 0, c_end = 1, nodeType = TextNode, c_parent = Some 2, c_siblingIndex = 0\<rparr>,
         \<lparr>c_start = 0, c_end = 1, nodeType = TextNode, c_parent = Some 3, c_siblingIndex = 0\<rparr>],
      elemPool = [], contentPool = [], stack = [], depth = 0, sent = [1, 3]\<rparr>"

text \<open>
  \<^verbatim>\<open><outer><item>1</item><item>2</item></outer>\<close> with both names as targets, and a
  consumer that releases the first item as soon as it has received it, before the parser
  reads the second start tag. The second item is then the first item's object, taken
  out of the pool again.
\<close>

definition nestedParser :: Parser where
  "nestedParser = NewParser [''item'', ''outer''] 0"

definition recycleRun :: "action list" where
  "recycleRun =
     [Token (EventStart ''outer'' [] ''<outer>''),
      Token (EventStart ''item'' [] ''<item>''), Token (EventText ''1''), Token EventEnd,
      ConsumerRelease 1,
      Token (EventStart ''item'' [] ''<item>''), Token (EventText ''2''), Token EventEnd,
      Token EventEnd]"

definition recycledTree :: machine where
  "recycledTree =
     \<lparr>elems =
        [\<lparr>Name = ''outer'', children = [ElemPtr 1, ElemPtr 1], parent = None,
          Attributes = [], localName = ''outer'', prefix = [], namespaceURI = [],
          namespaces = None, siblingIndex = 0, rawContent = []\<rparr>,
         \<lparr>Name = ''item'', children = [ContentPtr 0], parent = None,
          Attributes = [], localName = ''item'', prefix = [], namespaceURI = [],
          namespaces = None, siblingIndex = 1, rawContent = ''2''\<rparr>],
      contents =
        [\<lparr>c_start = 0, c_end = 1, nodeType = TextNode, c_parent = Some 1, c_siblingIndex = 0\<rparr>],
      elemPool = [], contentPool = [], stack = [], depth = 0, sent = [1, 1, 0]\<rparr>"

text \<open>
  \<^verbatim>\<open><outer><item></item><other></other></outer>\<close> with the same targets and the same
  consumer: \<open>other\<close>, which is not a target, is the released item's object.
\<close>

definition staleRun :: "action list" where
  "staleRun =
     [Token (EventStart ''outer'' [] ''<outer>''),
      Token (EventStart ''item'' [] ''<item>''), Token EventEnd,
      ConsumerRelease 1,
      Token (EventStart ''other'' [] ''<other>''), Token EventEnd,
      Token EventEnd]"

definition staleTree :: machine where
  "staleTree =
     \<lparr>elems =
        [\<lparr>Name = ''outer'', children = [ElemPtr 1, ElemPtr 1], parent = None,
          Attributes = [], localName = ''outer'', prefix = [], namespaceURI = [],
          namespaces = None, siblingIndex = 0, rawContent = []\<rparr>,
         \<lparr>Name = ''other'', children = [], parent = Some 0,
          Attributes = [], localName = ''other'', prefix = [], namespaceURI = [],
          namespaces = None, siblingIndex = 1, rawContent = []\<rparr>],
      contents = [],
      elemPool = [], contentPool = [], stack = [], depth = 0, sent = [1, 0]\<rparr>"

lemma parse_commentDoc: "parse itemParser commentDoc = Some commentTree"
  by code_simp

lemma parse_siblingsDoc: "parse itemParser siblingsDoc = Some siblingsTree"
  by code_simp

section \<open>The scanners never panic\<close>

lemma scan_le': "\<not> length a \<le> i \<Longrightarrow> scan P a (Suc i) \<le> length a"
  by (rule scan_le) simp

lemma scan_ge': "i \<le> j \<Longrightarrow> i \<le> scan P a j"
  using scan_ge [of j P a] by simp

lemma attrBody_no_crash: "attrBody attrs i acc \<noteq> Crash"
  by (simp add: attrBody_def Let_def slice_def index_def scan_ge scan_ge' scan_le' split: if_splits)

lemma attrLoop_total: "\<exists>r. attrLoop attrs i acc = Some r"
proof (induction attrs i acc rule: attrLoop.induct)
  case (1 attrs i acc)
  show ?case
  proof (cases "i < length attrs")
    case False
    then show ?thesis by (subst attrLoop.simps) simp
  next
    case True
    show ?thesis
    proof (cases "attrBody attrs i acc")
      case Break
      then show ?thesis using True by (subst attrLoop.simps) simp
    next
      case Crash
      then show ?thesis using attrBody_no_crash by blast
    next
      case (Continue i' acc')
      then have "\<exists>r. attrLoop attrs i' acc' = Some r" using 1 True by blast
      then show ?thesis using True Continue by (subst attrLoop.simps) simp
    qed
  qed
qed

lemma parseAttributes_total: "\<exists>elem'. parseAttributes attrs elem = Some elem'"
proof -
  obtain r where "attrLoop attrs 0 [] = Some r" using attrLoop_total by blast
  then show ?thesis by (simp add: parseAttributes_def Let_def)
qed

lemma HasPrefix_length: "HasPrefix s p \<Longrightarrow> length p \<le> length s"
proof -
  assume "HasPrefix s p"
  then have "length (take (length p) s) = length p" by (simp add: HasPrefix_def)
  then show ?thesis by simp
qed

lemma nsSkip_no_crash: "nsSkip attrs i ns \<noteq> Crash"
  by (simp add: nsSkip_def Let_def)

lemma HasPrefix_xmlns: "HasPrefix name ''xmlns:'' \<Longrightarrow> 6 \<le> length name"
  using HasPrefix_length [of name "''xmlns:''"] by simp

lemma nsDecl_no_crash: "nsDecl attrs i name ns \<noteq> Crash"
  by (simp add: nsDecl_def Let_def slice_def index_def scan_ge scan_ge' scan_le' HasPrefix_xmlns
      split: if_splits)

lemma nsBody_no_crash: "nsBody attrs i ns \<noteq> Crash"
  by (simp add: nsBody_def Let_def slice_def index_def scan_ge nsSkip_no_crash nsDecl_no_crash
      split: if_splits)

lemma nsLoop_total: "\<exists>r. nsLoop attrs i ns = Some r"
proof (induction attrs i ns rule: nsLoop.induct)
  case (1 attrs i ns)
  show ?case
  proof (cases "i < length attrs")
    case False
    then show ?thesis by (subst nsLoop.simps) simp
  next
    case True
    show ?thesis
    proof (cases "nsBody attrs i ns")
      case Break
      then show ?thesis using True by (subst nsLoop.simps) simp
    next
      case Crash
      then show ?thesis using nsBody_no_crash by blast
    next
      case (Continue i' ns')
      then have "\<exists>r. nsLoop attrs i' ns' = Some r" using 1 True by blast
      then show ?thesis using True Continue by (subst nsLoop.simps) simp
    qed
  qed
qed

lemma extractNamespaces_total: "\<exists>ns. extractNamespaces attrs = Some ns"
  using nsLoop_total [of attrs 0 None] by (simp add: extractNamespaces_def)

subsection \<open>What they recognise is bounded by the \<open>=\<close> bytes\<close>

lemma scan_stops: "scan P a i < length a \<Longrightarrow> \<not> P (a ! scan P a i)"
proof (induction P a i rule: scan.induct)
  case (1 P a i)
  show ?case
  proof (cases "i < length a \<and> P (a ! i)")
    case True
    then have e: "scan P a i = scan P a (Suc i)" by (subst scan.simps) simp
    then show ?thesis using 1 True by simp
  next
    case False
    then have e: "scan P a i = i" by (subst scan.simps) auto
    then show ?thesis using 1(2) False by simp
  qed
qed

lemma countEq_drop_le: "i \<le> j \<Longrightarrow> countEq (drop j a) \<le> countEq (drop i a)"
proof -
  assume "i \<le> j"
  then have "drop i a = take (j - i) (drop i a) @ drop j a"
    by (metis append_take_drop_id drop_drop le_add_diff_inverse2)
  then have "countEq (drop i a) = countEq (take (j - i) (drop i a)) + countEq (drop j a)"
    unfolding countEq_def by (metis filter_append length_append)
  then show ?thesis by simp
qed

lemma countEq_at: "j < length a \<Longrightarrow> a ! j = CHR ''='' \<Longrightarrow> countEq (drop j a) = Suc (countEq (drop (Suc j) a))"
  by (simp add: countEq_def Cons_nth_drop_Suc [symmetric])

lemma countEq_step:
  assumes "i \<le> j" and "j < length a" and "a ! j = CHR ''=''" and "j < i'"
  shows "Suc (countEq (drop i' a)) \<le> countEq (drop i a)"
proof -
  have "countEq (drop i' a) \<le> countEq (drop (Suc j) a)" using assms(4) by (simp add: countEq_drop_le)
  moreover have "countEq (drop j a) = Suc (countEq (drop (Suc j) a))" using assms(2,3) by (rule countEq_at)
  moreover have "countEq (drop j a) \<le> countEq (drop i a)" using assms(1) by (rule countEq_drop_le)
  ultimately show ?thesis by linarith
qed

lemma name_end_is_eq:
  "scan notEq a i < length a \<Longrightarrow> a ! scan notEq a i = CHR ''=''"
  using scan_stops [of notEq a i] by (simp add: notEq_def)

lemma attrBody_consumes:
  assumes "attrBody attrs i acc = Continue i' acc'"
  shows "length acc' = Suc (length acc) \<and> Suc (countEq (drop i' attrs)) \<le> countEq (drop i attrs)"
proof -
  define i1 where "i1 = scan isSpace4 attrs i"
  define i2 where "i2 = scan notEq attrs i1"
  define i4 where "i4 = scan isSpace2 attrs (Suc i2)"
  have 1: "i \<le> i1" unfolding i1_def by (rule scan_ge)
  have 2: "i1 \<le> i2" unfolding i2_def by (rule scan_ge)
  have 4: "Suc i2 \<le> i4" unfolding i4_def by (rule scan_ge)
  have "i2 < length attrs \<and> length acc' = Suc (length acc)
          \<and> (\<exists>q. i' = Suc (scan (\<lambda>c. c \<noteq> q) attrs (Suc i4)))"
    using assms unfolding attrBody_def Let_def i1_def i2_def i4_def
    by (auto split: if_splits option.splits)
  then obtain q where lt: "i2 < length attrs" and len: "length acc' = Suc (length acc)"
    and i': "i' = Suc (scan (\<lambda>c. c \<noteq> q) attrs (Suc i4))" by blast
  have "Suc i4 \<le> scan (\<lambda>c. c \<noteq> q) attrs (Suc i4)" by (rule scan_ge)
  then have after: "i2 < i'" using i' 4 by linarith
  have eq: "attrs ! i2 = CHR ''=''" using lt unfolding i2_def by (rule name_end_is_eq)
  have "i \<le> i2" using 1 2 by linarith
  then have "Suc (countEq (drop i' attrs)) \<le> countEq (drop i attrs)"
    using lt eq after by (rule countEq_step)
  then show ?thesis using len by simp
qed

lemma attrLoop_bound:
  "attrLoop attrs i acc = Some r \<Longrightarrow> length r \<le> length acc + countEq (drop i attrs)"
proof (induction attrs i acc rule: attrLoop.induct)
  case (1 attrs i acc)
  show ?case
  proof (cases "i < length attrs")
    case False
    then show ?thesis using 1(2) by (subst (asm) attrLoop.simps) simp
  next
    case True
    show ?thesis
    proof (cases "attrBody attrs i acc")
      case Break
      then show ?thesis using True 1(2) by (subst (asm) attrLoop.simps) simp
    next
      case Crash
      then show ?thesis using True 1(2) by (subst (asm) attrLoop.simps) simp
    next
      case (Continue i' acc')
      then have "attrLoop attrs i' acc' = Some r"
        using True 1(2) by (subst (asm) attrLoop.simps) simp
      then have "length r \<le> length acc' + countEq (drop i' attrs)"
        using 1(1) True Continue by blast
      then show ?thesis using attrBody_consumes [OF Continue] by linarith
    qed
  qed
qed

lemma parseAttributes_bound:
  assumes "parseAttributes attrs elem = Some elem'"
  shows "(countEq attrs = 0 \<longrightarrow> elem' = elem)
       \<and> (0 < countEq attrs \<longrightarrow> length (Attributes elem') \<le> countEq attrs)"
proof (cases "countEq attrs = 0")
  case True
  then show ?thesis using assms by (simp add: parseAttributes_def Let_def countEq_def)
next
  case False
  then obtain r where r: "attrLoop attrs 0 [] = Some r" and e: "elem' = elem\<lparr>Attributes := r\<rparr>"
    using assms by (auto simp: parseAttributes_def Let_def countEq_def)
  have "length r \<le> countEq attrs" using attrLoop_bound [OF r] by simp
  then show ?thesis using False e by simp
qed

lemma update_length: "length (AList.update k v al) \<le> Suc (length al)"
  by (induction al) auto

lemma mapSetMake_len: "mapLen (mapSetMake ns k v) \<le> Suc (mapLen ns)"
  using update_length [of k v "[]"] update_length [of k v]
  by (cases ns) (simp_all add: mapSetMake_def mapLen_def)

lemma nsSkip_keeps: "nsSkip attrs i ns = Continue i' ns' \<Longrightarrow> ns' = ns"
  by (auto simp: nsSkip_def Let_def split: if_splits)

lemma nsSkip_consumes:
  "nsSkip attrs i ns = Continue i' ns' \<Longrightarrow> ns' = ns \<and> i < i'"
  using nsSkip_keeps nsSkip_advances by blast

lemma nsDecl_consumes:
  assumes "nsDecl attrs i name ns = Continue i' ns'"
  shows "mapLen ns' \<le> Suc (mapLen ns) \<and> i < i'"
proof -
  have "ns' = ns \<or> (\<exists>k v. ns' = mapSetMake ns k v)"
    using assms by (auto simp: nsDecl_def Let_def split: if_splits option.splits)
  then have "mapLen ns' \<le> Suc (mapLen ns)" using mapSetMake_len by auto
  then show ?thesis using nsDecl_advances [OF assms] by simp
qed

lemma nsBody_consumes:
  assumes "nsBody attrs i ns = Continue i' ns'"
  shows "mapLen ns' \<le> Suc (mapLen ns) \<and> Suc (countEq (drop i' attrs)) \<le> countEq (drop i attrs)"
proof -
  define i1 where "i1 = scan isSpace4 attrs i"
  define i2 where "i2 = scan notEq attrs i1"
  have 1: "i \<le> i1" unfolding i1_def by (rule scan_ge)
  have 2: "i1 \<le> i2" unfolding i2_def by (rule scan_ge)
  have "i2 < length attrs \<and>
         (nsSkip attrs i2 ns = Continue i' ns' \<or> (\<exists>nm. nsDecl attrs i2 nm ns = Continue i' ns'))"
    using assms unfolding nsBody_def Let_def i1_def i2_def by (auto split: if_splits option.splits)
  then have lt: "i2 < length attrs" and len: "mapLen ns' \<le> Suc (mapLen ns)" and after: "i2 < i'"
    using nsSkip_consumes nsDecl_consumes by fastforce+
  have eq: "attrs ! i2 = CHR ''=''" using lt unfolding i2_def by (rule name_end_is_eq)
  have "i \<le> i2" using 1 2 by linarith
  then have "Suc (countEq (drop i' attrs)) \<le> countEq (drop i attrs)"
    using lt eq after by (rule countEq_step)
  then show ?thesis using len by simp
qed

lemma nsLoop_bound:
  "nsLoop attrs i ns = Some r \<Longrightarrow> mapLen r \<le> mapLen ns + countEq (drop i attrs)"
proof (induction attrs i ns rule: nsLoop.induct)
  case (1 attrs i ns)
  show ?case
  proof (cases "i < length attrs")
    case False
    then show ?thesis using 1(2) by (subst (asm) nsLoop.simps) simp
  next
    case True
    show ?thesis
    proof (cases "nsBody attrs i ns")
      case Break
      then show ?thesis using True 1(2) by (subst (asm) nsLoop.simps) simp
    next
      case Crash
      then show ?thesis using True 1(2) by (subst (asm) nsLoop.simps) simp
    next
      case (Continue i' ns')
      then have "nsLoop attrs i' ns' = Some r"
        using True 1(2) by (subst (asm) nsLoop.simps) simp
      then have "mapLen r \<le> mapLen ns' + countEq (drop i' attrs)"
        using 1(1) True Continue by blast
      then show ?thesis using nsBody_consumes [OF Continue] by linarith
    qed
  qed
qed

lemma extractNamespaces_bound:
  "extractNamespaces attrs = Some ns \<Longrightarrow> mapLen ns \<le> countEq attrs"
proof (cases "length attrs = 0")
  case True
  assume "extractNamespaces attrs = Some ns"
  then show ?thesis using True by (simp add: extractNamespaces_def mapLen_def)
next
  case False
  assume "extractNamespaces attrs = Some ns"
  then have "nsLoop attrs 0 None = Some ns" using False by (simp add: extractNamespaces_def)
  then show ?thesis using nsLoop_bound [of attrs 0 None ns] by (simp add: mapLen_def)
qed

text \<open>
  C8. An end tag that arrives with no element open changes nothing. The two attribute
  scanners return on every byte string: no index or slice of theirs leaves the input,
  whatever the input is; and what they return is bounded by the input, at most one
  attribute and at most one namespace for each \<open>=\<close> byte, with the element untouched
  when there is none.
\<close>

theorem unmatched_end_ignored_and_scanners_total:
  "(length (stack m) = 0 \<longrightarrow> handleEndElement p m = m \<and> handleEvent p EventEnd m = Some m)
   \<and> (\<exists>elem'. parseAttributes attrs elem = Some elem'
         \<and> (countEq attrs = 0 \<longrightarrow> elem' = elem)
         \<and> (0 < countEq attrs \<longrightarrow> length (Attributes elem') \<le> countEq attrs))
   \<and> (\<exists>ns. extractNamespaces attrs = Some ns \<and> mapLen ns \<le> countEq attrs)"
proof -
  obtain elem' where a: "parseAttributes attrs elem = Some elem'"
    using parseAttributes_total by blast
  obtain ns where n: "extractNamespaces attrs = Some ns"
    using extractNamespaces_total by blast
  show ?thesis
    using a n parseAttributes_bound [OF a] extractNamespaces_bound [OF n]
    by (simp add: handleEndElement_def)
qed

text \<open>
  On \<^verbatim>\<open>a='1' xmlns = u b='2\<close> the value of \<open>xmlns\<close> is not quoted, which ends both
  scans there: one attribute and no namespace are recognised, of three \<open>=\<close> bytes.
\<close>

theorem unmatched_end_ignored_and_scanners_total_witness:
  "length (stack initial) = 0
   \<and> handleEvent itemParser EventEnd initial = Some initial
   \<and> countEq (''a='' @ [CHR 0x27] @ ''1'' @ [CHR 0x27] @ '' xmlns = u b='' @ [CHR 0x27] @ ''2'') = 3
   \<and> map_option Attributes
        (parseAttributes (''a='' @ [CHR 0x27] @ ''1'' @ [CHR 0x27] @ '' xmlns = u b='' @ [CHR 0x27] @ ''2'')
           pooledElement)
       = Some [\<lparr>attrName = ''a'', attrValue = ''1''\<rparr>]
   \<and> extractNamespaces (''a='' @ [CHR 0x27] @ ''1'' @ [CHR 0x27] @ '' xmlns = u b='' @ [CHR 0x27] @ ''2'')
       = Some None"
proof -
  let ?attrs = "''a='' @ [CHR 0x27] @ ''1'' @ [CHR 0x27] @ '' xmlns = u b='' @ [CHR 0x27] @ ''2''"
  have s: "length (stack initial) = 0" by (simp add: initial_def)
  have c: "countEq ?attrs = 3" by (simp add: countEq_def)
  have a: "map_option Attributes (parseAttributes ?attrs pooledElement)
             = Some [\<lparr>attrName = ''a'', attrValue = ''1''\<rparr>]"
    by code_simp
  have n: "extractNamespaces ?attrs = Some None" by code_simp
  have "handleEvent itemParser EventEnd initial = Some initial"
    using s unmatched_end_ignored_and_scanners_total [of initial itemParser ?attrs pooledElement]
    by blast
  then show ?thesis using s c a n by blast
qed

section \<open>The xmlns short-circuit\<close>

lemma Contains_infix: "Contains (pre @ sub @ post) sub"
proof (induction pre)
  case Nil
  show ?case
  proof (cases "sub @ post")
    case Nil
    then show ?thesis by simp
  next
    case (Cons a list)
    then have "take (length sub) (a # list) = sub" by (metis append_eq_conv_conj)
    then have "Contains (a # list) sub" by simp
    then show ?thesis using Cons by simp
  qed
next
  case (Cons a pre)
  then show ?case by simp
qed

lemma trimLeft_suffix: "\<exists>pre. s = pre @ trimLeft s"
proof (induction s rule: trimLeft.induct)
  case (1 s)
  show ?case
  proof (cases "spaceWidth s = 0")
    case True
    then show ?thesis by (subst trimLeft.simps) simp
  next
    case False
    then obtain pre where "drop (spaceWidth s) s = pre @ trimLeft (drop (spaceWidth s) s)"
      using 1 by blast
    then have "s = (take (spaceWidth s) s @ pre) @ trimLeft (drop (spaceWidth s) s)"
      by (metis append.assoc append_take_drop_id)
    moreover have "trimLeft s = trimLeft (drop (spaceWidth s) s)"
      using False by (subst trimLeft.simps) simp
    ultimately show ?thesis by metis
  qed
qed

lemma trimRight_prefix: "\<exists>post. s = trimRight s @ post"
proof (induction s rule: trimRight.induct)
  case (1 s)
  show ?case
  proof (cases "spaceWidthLast s = 0")
    case True
    then show ?thesis by (subst trimRight.simps) simp
  next
    case False
    let ?t = "take (length s - spaceWidthLast s) s"
    obtain post where "?t = trimRight ?t @ post" using 1 False by blast
    then have "s = trimRight ?t @ (post @ drop (length s - spaceWidthLast s) s)"
      by (metis append.assoc append_take_drop_id)
    moreover have "trimRight s = trimRight ?t"
      using False by (subst trimRight.simps) simp
    ultimately show ?thesis by metis
  qed
qed

lemma TrimSpace_infix: "\<exists>pre post. s = pre @ TrimSpace s @ post"
proof -
  obtain pre where 1: "s = pre @ trimLeft s" using trimLeft_suffix by blast
  obtain post where 2: "trimLeft s = trimRight (trimLeft s) @ post" using trimRight_prefix by blast
  have "s = pre @ TrimSpace s @ post" using 1 2 by (simp add: TrimSpace_def)
  then show ?thesis by blast
qed

lemma slice_infix: "slice a lo hi = Some b \<Longrightarrow> \<exists>pre post. a = pre @ b @ post"
proof -
  assume "slice a lo hi = Some b"
  then have b: "b = take (hi - lo) (drop lo a)" by (simp add: slice_def split: if_splits)
  have "a = take lo a @ take (hi - lo) (drop lo a) @ drop (hi - lo) (drop lo a)"
    by (simp only: append_take_drop_id)
  then show ?thesis using b by blast
qed

lemma Contains_nested: "Contains (pre @ (pre' @ c @ post') @ post) c"
proof -
  have e: "pre @ (pre' @ c @ post') @ post = (pre @ pre') @ c @ (post' @ post)" by simp
  show ?thesis unfolding e by (rule Contains_infix)
qed

lemma HasPrefix_append: "HasPrefix s p \<Longrightarrow> \<exists>post. s = p @ post"
  by (metis HasPrefix_def append_take_drop_id)

lemma nsDecl_keeps:
  assumes "nsDecl attrs i name ns = Continue i' ns'" and "ns' \<noteq> ns"
  shows "\<exists>post. name = ''xmlns'' @ post"
proof -
  have "name = ''xmlns'' \<or> HasPrefix name ''xmlns:''"
    using assms by (auto simp: nsDecl_def Let_def split: if_splits option.splits)
  then show ?thesis
  proof
    assume "name = ''xmlns''"
    then show ?thesis by simp
  next
    assume "HasPrefix name ''xmlns:''"
    then obtain post where "name = ''xmlns:'' @ post" using HasPrefix_append by blast
    then have "name = ''xmlns'' @ (CHR '':'' # post)" by simp
    then show ?thesis by blast
  qed
qed

lemma nsBody_keeps:
  assumes b: "nsBody attrs i ns = Continue i' ns'" and no: "\<not> Contains attrs ''xmlns''"
  shows "ns' = ns"
proof (rule ccontr)
  assume neq: "ns' \<noteq> ns"
  define i1 where "i1 = scan isSpace4 attrs i"
  define i2 where "i2 = scan notEq attrs i1"
  have "\<exists>nb. slice attrs i1 i2 = Some nb \<and>
          (nsSkip attrs i2 ns = Continue i' ns' \<or> nsDecl attrs i2 (TrimSpace nb) ns = Continue i' ns')"
    using b unfolding nsBody_def Let_def i1_def i2_def
    by (auto split: if_splits option.splits)
  then obtain nb where sl: "slice attrs i1 i2 = Some nb"
    and d: "nsDecl attrs i2 (TrimSpace nb) ns = Continue i' ns'"
    using neq nsSkip_keeps by blast
  obtain post where nm: "TrimSpace nb = ''xmlns'' @ post" using nsDecl_keeps [OF d neq] by blast
  obtain pre1 post1 where 1: "attrs = pre1 @ nb @ post1" using slice_infix [OF sl] by blast
  obtain pre2 post2 where 2: "nb = pre2 @ TrimSpace nb @ post2" using TrimSpace_infix by blast
  have "nb = pre2 @ ''xmlns'' @ (post @ post2)" using 2 nm by simp
  then have "attrs = pre1 @ (pre2 @ ''xmlns'' @ (post @ post2)) @ post1" using 1 by simp
  then have "Contains attrs ''xmlns''" using Contains_nested by metis
  then show False using no by simp
qed

lemma nsLoop_keeps:
  "\<not> Contains attrs ''xmlns'' \<Longrightarrow> nsLoop attrs i ns = Some ns"
proof (induction attrs i ns rule: nsLoop.induct)
  case (1 attrs i ns)
  show ?case
  proof (cases "i < length attrs")
    case False
    then show ?thesis by (subst nsLoop.simps) simp
  next
    case True
    show ?thesis
    proof (cases "nsBody attrs i ns")
      case Break
      then show ?thesis using True by (subst nsLoop.simps) simp
    next
      case Crash
      then show ?thesis using nsBody_no_crash by blast
    next
      case (Continue i' ns')
      then have same: "ns' = ns" using 1(2) by (rule nsBody_keeps)
      have "nsLoop attrs i' ns' = Some ns'" using 1 True Continue by blast
      then show ?thesis using True Continue same by (subst nsLoop.simps) simp
    qed
  qed
qed

lemma extractNamespaces_without_xmlns:
  "\<not> Contains attrs ''xmlns'' \<Longrightarrow> extractNamespaces attrs = Some None"
  by (simp add: extractNamespaces_def nsLoop_keeps)

text \<open>
  C5. Extracting namespaces only when the attribute bytes contain \<open>xmlns\<close>, as \<open>parse\<close>
  does, gives the same mapping as extracting always: without that substring
  \<open>extractNamespaces\<close> returns the \<open>nil\<close> map, so a start tag is handled exactly as if
  the extraction had run unconditionally.
\<close>

theorem xmlns_shortcut_is_exact:
  "(if length attrs > 0 \<and> Contains attrs ''xmlns'' then extractNamespaces attrs else Some None)
     = extractNamespaces attrs
   \<and> (\<not> Contains attrs ''xmlns'' \<longrightarrow> extractNamespaces attrs = Some None)
   \<and> handleEvent p (EventStart name attrs fullTag) m =
       (case extractNamespaces attrs of
          None \<Rightarrow> None
        | Some ens \<Rightarrow> handleStartElement p m name attrs fullTag ens)"
proof -
  have 1: "\<not> Contains attrs ''xmlns'' \<Longrightarrow> extractNamespaces attrs = Some None"
    by (rule extractNamespaces_without_xmlns)
  have 2: "\<not> length attrs > 0 \<Longrightarrow> extractNamespaces attrs = Some None"
    by (simp add: extractNamespaces_def)
  show ?thesis using 1 2 by (cases "Contains attrs ''xmlns''"; cases "length attrs > 0") simp_all
qed

theorem xmlns_shortcut_is_exact_witness:
  "\<not> Contains ''id=1 x:lang=en'' ''xmlns''
   \<and> extractNamespaces ''id=1 x:lang=en'' = Some None
   \<and> Contains ''a=1 xmlns:g='' ''xmlns''"
proof -
  have no: "\<not> Contains ''id=1 x:lang=en'' ''xmlns''" by simp
  have yes: "Contains ''a=1 xmlns:g='' ''xmlns''" by simp
  have "extractNamespaces ''id=1 x:lang=en'' = Some None"
    using no xmlns_shortcut_is_exact
            [of "''id=1 x:lang=en''" itemParser "''a''" "''<a>''" initial, THEN conjunct2, THEN conjunct1]
    by (rule_tac mp)
  then show ?thesis using no yes by (simp only: simp_thms)
qed

section \<open>Stream\<close>

lemma Stream_fired: "once p \<Longrightarrow> Stream p rt = (ch p, p, rt)"
  by (simp add: Stream_def)

lemma streamCalls_fired: "once p \<Longrightarrow> streamCalls n p rt = (replicate n (ch p), p, rt)"
  by (induction n) (simp_all add: Stream_fired)

text \<open>
  C6. On a parser fresh from \<open>NewParser\<close>, any number of calls of \<open>Stream\<close> all return
  the channel the first call made; after them exactly one goroutine has been started,
  the one parsing into that channel; and before the first call nothing has been started.
\<close>

theorem Stream_idempotent:
  assumes "streamCalls (Suc n) (NewParser names buf) rt = (hs, p', rt')"
  shows "hs = replicate (Suc n) (Some (channels rt))
     \<and> goroutines rt' = goroutines rt @ [channels rt]
     \<and> channels rt' = Suc (channels rt)
     \<and> ch p' = Some (channels rt)
     \<and> streamCalls 0 (NewParser names buf) rt = ([], NewParser names buf, rt)"
proof -
  let ?p = "NewParser names buf"
  let ?p1 = "?p\<lparr>once := True, ch := Some (channels rt)\<rparr>"
  let ?rt1 = "rt\<lparr>channels := Suc (channels rt), goroutines := goroutines rt @ [channels rt]\<rparr>"
  have fresh: "\<not> once ?p" by (simp add: NewParser_def)
  then have first: "Stream ?p rt = (Some (channels rt), ?p1, ?rt1)"
    by (simp add: Stream_def Let_def)
  have rest: "streamCalls n ?p1 ?rt1 = (replicate n (Some (channels rt)), ?p1, ?rt1)"
    using streamCalls_fired [of ?p1 n ?rt1] by simp
  have "streamCalls (Suc n) ?p rt = (replicate (Suc n) (Some (channels rt)), ?p1, ?rt1)"
    using first rest by simp
  then have "hs = replicate (Suc n) (Some (channels rt))" and "p' = ?p1" and "rt' = ?rt1"
    using assms by simp_all
  then show ?thesis by simp
qed

theorem Stream_idempotent_witness:
  "streamCalls 3 (NewParser [''item''] 0) \<lparr>channels = 5, goroutines = [2]\<rparr>
     = ([Some 5, Some 5, Some 5],
        \<lparr>streamNames = Some [(''item'', True)], bufferSize = 8, once = True, ch = Some 5\<rparr>,
        \<lparr>channels = 6, goroutines = [2, 5]\<rparr>)
   \<and> [Some 5, Some 5, Some 5] = replicate 3 (Some (5::nat))"
proof -
  have run: "streamCalls (Suc 2) (NewParser [''item''] 0) \<lparr>channels = 5, goroutines = [2]\<rparr>
     = ([Some 5, Some 5, Some 5],
        \<lparr>streamNames = Some [(''item'', True)], bufferSize = 8, once = True, ch = Some 5\<rparr>,
        \<lparr>channels = 6, goroutines = [2, 5]\<rparr>)"
    by (simp add: NewParser_def Stream_def Let_def numeral_2_eq_2)
  show ?thesis
    using Stream_idempotent [OF run] run by (simp add: numeral_3_eq_3 numeral_2_eq_2)
qed

section \<open>Moves that fail\<close>





section \<open>The stores stay well linked\<close>

lemma childrenIndexed_iff:
  "childrenIndexed m \<longleftrightarrow>
     (\<forall>p i. p < length (elems m) \<longrightarrow> i < length (children (elems m ! p)) \<longrightarrow>
        validNode m (children (elems m ! p) ! i)
        \<and> getSiblingIndex m (children (elems m ! p) ! i) = i)"
  by (auto simp: childrenIndexed_def list_all_iff)

lemma parentsListed_iff: "parentsListed m \<longleftrightarrow> (\<forall>n. validNode m n \<longrightarrow> listedAtIndex m n)"
proof
  assume a: "parentsListed m"
  show "\<forall>n. validNode m n \<longrightarrow> listedAtIndex m n"
  proof (intro allI impI)
    fix n assume "validNode m n"
    then show "listedAtIndex m n" using a by (cases n) (auto simp: parentsListed_def list_all_iff)
  qed
next
  assume a: "\<forall>n. validNode m n \<longrightarrow> listedAtIndex m n"
  have "\<And>e. e < length (elems m) \<Longrightarrow> listedAtIndex m (ElemPtr e)" using a by simp
  moreover have "\<And>c. c < length (contents m) \<Longrightarrow> listedAtIndex m (ContentPtr c)" using a by simp
  ultimately show "parentsListed m" by (simp add: parentsListed_def list_all_iff)
qed

text \<open>
  Attaching one new node as the last child of an element keeps the stores well linked.
  Both the text/comment block and \<open>handleStartElement\<close> do exactly this.
\<close>

lemma wellLinked_attach:
  assumes wl: "wellLinked m"
    and par: "par < length (elems m)"
    and len: "length (elems m) \<le> length (elems m')"
    and V: "\<And>n. validNode m' n \<longleftrightarrow> validNode m n \<or> n = new"
    and fresh: "\<not> validNode m new"
    and S: "\<And>n. validNode m n \<Longrightarrow> getSiblingIndex m' n = getSiblingIndex m n"
    and P: "\<And>n. validNode m n \<Longrightarrow> nodeParent m' n = nodeParent m n"
    and K: "\<And>p. p < length (elems m) \<Longrightarrow>
              children (elems m' ! p) =
                (if p = par then children (elems m ! p) @ [new] else children (elems m ! p))"
    and NS: "getSiblingIndex m' new = length (children (elems m ! par))"
    and NP: "nodeParent m' new = Some par"
    and NK: "\<And>e. new = ElemPtr e \<Longrightarrow> children (elems m' ! e) = []"
  shows "wellLinked m'"
proof -
  have ci: "\<And>p i. p < length (elems m) \<Longrightarrow> i < length (children (elems m ! p)) \<Longrightarrow>
        validNode m (children (elems m ! p) ! i)
        \<and> getSiblingIndex m (children (elems m ! p) ! i) = i"
    using wl by (simp add: wellLinked_def childrenIndexed_iff)
  have pl: "\<And>n. validNode m n \<Longrightarrow> listedAtIndex m n"
    using wl by (simp add: wellLinked_def parentsListed_iff)
  have "childrenIndexed m'"
    unfolding childrenIndexed_iff
  proof (intro allI impI)
    fix p i
    assume p: "p < length (elems m')" and i: "i < length (children (elems m' ! p))"
    let ?goal = "validNode m' (children (elems m' ! p) ! i)
        \<and> getSiblingIndex m' (children (elems m' ! p) ! i) = i"
    have pv: "validNode m' (ElemPtr p)" using p by simp
    show ?goal
    proof (cases "ElemPtr p = new")
      case True
      then have "children (elems m' ! p) = []" using NK [of p] by simp
      then show ?thesis using i by simp
    next
      case False
      then have pm: "p < length (elems m)" using pv V [of "ElemPtr p"] by simp
      show ?thesis
      proof (cases "p = par \<and> i = length (children (elems m ! p))")
        case True
        then have "children (elems m' ! p) ! i = new" using K [OF pm] by simp
        then show ?thesis using True NS V [of new] by simp
      next
        case False
        then have im: "i < length (children (elems m ! p))" using i K [OF pm]
          by (auto split: if_splits)
        then have same: "children (elems m' ! p) ! i = children (elems m ! p) ! i"
          using K [OF pm] by (auto simp: nth_append)
        have "validNode m (children (elems m ! p) ! i)"
          and "getSiblingIndex m (children (elems m ! p) ! i) = i"
          using ci [OF pm im] by simp_all
        then show ?thesis using same S V by simp
      qed
    qed
  qed
  moreover have "parentsListed m'"
    unfolding parentsListed_iff
  proof (intro allI impI)
    fix n
    assume nv: "validNode m' n"
    show "listedAtIndex m' n"
    proof (cases "n = new")
      case True
      have "children (elems m' ! par) = children (elems m ! par) @ [new]" using K [OF par] by simp
      then show ?thesis using True NS NP par len by (simp add: listedAtIndex_def)
    next
      case False
      then have nm: "validNode m n" using nv V by simp
      show ?thesis
      proof (cases "nodeParent m n")
        case None
        then show ?thesis using P [OF nm] by (simp add: listedAtIndex_def)
      next
        case (Some q)
        then have q: "q < length (elems m)"
          and qi: "getSiblingIndex m n < length (children (elems m ! q))"
          and qn: "children (elems m ! q) ! getSiblingIndex m n = n"
          using pl [OF nm] by (simp_all add: listedAtIndex_def)
        have "getSiblingIndex m' n < length (children (elems m' ! q))"
          using qi S [OF nm] K [OF q] by auto
        moreover have "children (elems m' ! q) ! getSiblingIndex m' n = n"
          using qi qn S [OF nm] K [OF q] by (auto simp: nth_append)
        ultimately show ?thesis using Some P [OF nm] q len by (simp add: listedAtIndex_def)
      qed
    qed
  qed
  ultimately show ?thesis by (simp add: wellLinked_def)
qed

lemma nth_upd: "xs[i := x] ! j = (if i = j \<and> i < length xs then x else xs ! j)"
  by (cases "i < length xs") (auto simp: list_update_beyond)

lemma stackValid_last: "stackValid m \<Longrightarrow> 0 < length (stack m) \<Longrightarrow> last (stack m) < length (elems m)"
  by (simp add: stackValid_def list_all_iff)

subsection \<open>appendContent\<close>

text \<open>With nothing in the pool the content node is a new one at the end of the store.\<close>

lemma appendContent_fresh:
  "contentPool m = [] \<Longrightarrow>
     appendContent kind content m =
       m\<lparr>elems := (elems m)[last (stack m) := (elems m ! last (stack m))
                 \<lparr>children := children (elems m ! last (stack m)) @ [ContentPtr (length (contents m))],
                  rawContent := rawContent (elems m ! last (stack m)) @ content\<rparr>],
         contents := contents m @
            [\<lparr>c_start = length (rawContent (elems m ! last (stack m))),
              c_end = length (rawContent (elems m ! last (stack m)) @ content),
              nodeType = kind,
              c_parent = Some (last (stack m)),
              c_siblingIndex = length (children (elems m ! last (stack m)))\<rparr>]\<rparr>"
  by (simp add: appendContent_def getContentNodeFromPool_def Let_def)

lemma appendContent_wellLinked:
  assumes wl: "wellLinked m" and par: "last (stack m) < length (elems m)"
    and np: "contentPool m = []"
  shows "wellLinked (appendContent kind b m)"
proof (rule wellLinked_attach [OF wl par, where new = "ContentPtr (length (contents m))"])
  let ?m' = "appendContent kind b m"
  show "length (elems m) \<le> length (elems ?m')" using np by (simp add: appendContent_fresh)
  show "validNode ?m' n \<longleftrightarrow> validNode m n \<or> n = ContentPtr (length (contents m))" for n
    using np by (cases n) (auto simp: appendContent_fresh)
  show "\<not> validNode m (ContentPtr (length (contents m)))" by simp
  show "getSiblingIndex ?m' n = getSiblingIndex m n" if "validNode m n" for n
    using that np by (cases n) (auto simp: appendContent_fresh nth_upd nth_append)
  show "nodeParent ?m' n = nodeParent m n" if "validNode m n" for n
    using that np by (cases n) (auto simp: appendContent_fresh nth_upd nth_append)
  show "children (elems ?m' ! p) =
      (if p = last (stack m) then children (elems m ! p) @ [ContentPtr (length (contents m))]
       else children (elems m ! p))" if "p < length (elems m)" for p
    using that np by (simp add: appendContent_fresh nth_upd)
  show "getSiblingIndex ?m' (ContentPtr (length (contents m))) = length (children (elems m ! last (stack m)))"
    using np by (simp add: appendContent_fresh)
  show "nodeParent ?m' (ContentPtr (length (contents m))) = Some (last (stack m))"
    using np by (simp add: appendContent_fresh)
  show "children (elems ?m' ! e) = []" if "ContentPtr (length (contents m)) = ElemPtr e" for e
    using that by simp
qed

lemma appendContent_frame:
  assumes "contentPool m = []"
  shows "stack (appendContent kind b m) = stack m"
    and "sent (appendContent kind b m) = sent m"
    and "length (elems (appendContent kind b m)) = length (elems m)"
    and "elemPool (appendContent kind b m) = elemPool m"
    and "contentPool (appendContent kind b m) = []"
  using assms by (simp_all add: appendContent_fresh)

lemma appendContent_fields:
  assumes "contentPool m = []" and "e < length (elems m)"
  shows "parent (elems (appendContent kind b m) ! e) = parent (elems m ! e)"
    and "Name (elems (appendContent kind b m) ! e) = Name (elems m ! e)"
  using assms by (simp_all add: appendContent_fresh nth_upd)

subsection \<open>linkElement\<close>

text \<open>
  With nothing in the pool \<open>handleStartElement\<close> links a new element at the end of the
  store; \<open>linkFresh elem m\<close> is the state after the link, for the populated element
  \<open>elem\<close>.
\<close>

abbreviation linkFresh :: "XMLElement \<Rightarrow> machine \<Rightarrow> machine" where
  "linkFresh elem m \<equiv> linkElement (length (elems m)) (m\<lparr>elems := elems m @ [elem]\<rparr>)"

lemma linkFresh_eq:
  assumes "0 < length (stack m)" and "last (stack m) < length (elems m)"
  shows "linkFresh elem m =
     m\<lparr>elems := (elems m)[last (stack m) := (elems m ! last (stack m))
               \<lparr>children := children (elems m ! last (stack m)) @ [ElemPtr (length (elems m))]\<rparr>]
             @ [elem\<lparr>parent := Some (last (stack m)),
                     siblingIndex := length (children (elems m ! last (stack m)))\<rparr>]\<rparr>"
  using assms by (simp add: linkElement_def Let_def nth_append list_update_append)

lemma linkElement_wellLinked:
  assumes wl: "wellLinked m" and sv: "stackValid m"
    and noKids: "children elem = []" and noParent: "parent elem = None"
  shows "wellLinked (linkFresh elem m)"
proof (cases "0 < length (stack m)")
  case True
  let ?m' = "linkFresh elem m"
  let ?new = "ElemPtr (length (elems m))"
  have par: "last (stack m) < length (elems m)" using sv True by (rule stackValid_last)
  show ?thesis
  proof (rule wellLinked_attach [OF wl par, where new = ?new])
    show "length (elems m) \<le> length (elems ?m')" using True par by (simp add: linkFresh_eq Let_def)
    show "validNode ?m' n \<longleftrightarrow> validNode m n \<or> n = ?new" for n
      using True par by (cases n) (auto simp: linkFresh_eq Let_def)
    show "\<not> validNode m ?new" by simp
    show "getSiblingIndex ?m' n = getSiblingIndex m n" if "validNode m n" for n
      using that True par by (cases n) (auto simp: linkFresh_eq Let_def nth_upd nth_append)
    show "nodeParent ?m' n = nodeParent m n" if "validNode m n" for n
      using that True par by (cases n) (auto simp: linkFresh_eq Let_def nth_upd nth_append)
    show "children (elems ?m' ! p) =
        (if p = last (stack m) then children (elems m ! p) @ [?new] else children (elems m ! p))"
      if "p < length (elems m)" for p
      using that True par by (simp add: linkFresh_eq Let_def nth_upd nth_append)
    show "getSiblingIndex ?m' ?new = length (children (elems m ! last (stack m)))"
      using True par by (simp add: linkFresh_eq Let_def nth_append)
    show "nodeParent ?m' ?new = Some (last (stack m))"
      using True par by (simp add: linkFresh_eq Let_def nth_append)
    show "children (elems ?m' ! e) = []" if "?new = ElemPtr e" for e
    proof -
      from that have e: "e = length (elems m)" by simp
      show ?thesis unfolding e using True par noKids by (simp add: linkFresh_eq nth_append)
    qed
  qed
next
  case False
  then have m': "linkFresh elem m = m\<lparr>elems := elems m @ [elem]\<rparr>"
    by (simp add: linkElement_def)
  have ci: "\<And>p i. p < length (elems m) \<Longrightarrow> i < length (children (elems m ! p)) \<Longrightarrow>
        validNode m (children (elems m ! p) ! i)
        \<and> getSiblingIndex m (children (elems m ! p) ! i) = i"
    using wl by (simp add: wellLinked_def childrenIndexed_iff)
  have pl: "\<And>n. validNode m n \<Longrightarrow> listedAtIndex m n"
    using wl by (simp add: wellLinked_def parentsListed_iff)
  let ?m' = "m\<lparr>elems := elems m @ [elem]\<rparr>"
  have V: "validNode m n \<Longrightarrow> validNode ?m' n" for n by (cases n) auto
  have S: "validNode m n \<Longrightarrow> getSiblingIndex ?m' n = getSiblingIndex m n" for n
    by (cases n) (auto simp: nth_append)
  have P: "validNode m n \<Longrightarrow> nodeParent ?m' n = nodeParent m n" for n
    by (cases n) (auto simp: nth_append)
  have "childrenIndexed ?m'"
    unfolding childrenIndexed_iff
  proof (intro allI impI)
    fix p i
    assume p: "p < length (elems ?m')" and i: "i < length (children (elems ?m' ! p))"
    show "validNode ?m' (children (elems ?m' ! p) ! i)
        \<and> getSiblingIndex ?m' (children (elems ?m' ! p) ! i) = i"
    proof (cases "p < length (elems m)")
      case True
      then have same: "elems ?m' ! p = elems m ! p" by (simp add: nth_append)
      then have "validNode m (children (elems m ! p) ! i)"
        and "getSiblingIndex m (children (elems m ! p) ! i) = i"
        using ci [OF True] i by simp_all
      then show ?thesis using same V S by simp
    next
      case False
      then have "p = length (elems m)" using p by simp
      then show ?thesis using i noKids by simp
    qed
  qed
  moreover have "parentsListed ?m'"
    unfolding parentsListed_iff
  proof (intro allI impI)
    fix n
    assume nv: "validNode ?m' n"
    show "listedAtIndex ?m' n"
    proof (cases "validNode m n")
      case True
      show ?thesis
      proof (cases "nodeParent m n")
        case None
        then show ?thesis using P [OF True] by (simp add: listedAtIndex_def)
      next
        case (Some q)
        then have "q < length (elems m)"
          and "getSiblingIndex m n < length (children (elems m ! q))"
          and "children (elems m ! q) ! getSiblingIndex m n = n"
          using pl [OF True] by (simp_all add: listedAtIndex_def)
        then show ?thesis using Some P [OF True] S [OF True]
          by (simp add: listedAtIndex_def nth_append)
      qed
    next
      case False
      then have "n = ElemPtr (length (elems m))" using nv by (cases n) auto
      then show ?thesis using noParent by (simp add: listedAtIndex_def)
    qed
  qed
  ultimately show ?thesis using m' by (simp add: wellLinked_def)
qed

lemma linkElement_frame:
  "stack (linkFresh elem m) = stack m"
  "sent (linkFresh elem m) = sent m"
  "length (elems (linkFresh elem m)) = Suc (length (elems m))"
  "elemPool (linkFresh elem m) = elemPool m"
  "contentPool (linkFresh elem m) = contentPool m"
  by (simp_all add: linkElement_def Let_def)

lemma linkElement_fields:
  "e < length (elems m) \<Longrightarrow> parent (elems (linkFresh elem m) ! e) = parent (elems m ! e)"
  "e < length (elems m) \<Longrightarrow> Name (elems (linkFresh elem m) ! e) = Name (elems m ! e)"
  by (simp_all add: linkElement_def Let_def nth_upd nth_append)

lemma linkElement_new_Name:
  "Name (elems (linkFresh elem m) ! length (elems m)) = Name elem"
  by (simp add: linkElement_def Let_def nth_upd nth_append)

subsection \<open>checkAndStreamElement\<close>

lemma detach_wellLinked:
  assumes wl: "wellLinked m" and e: "e < length (elems m)"
  shows "wellLinked (m\<lparr>elems := (elems m)[e := (elems m ! e)\<lparr>parent := None\<rparr>], sent := s\<rparr>)"
proof -
  let ?m' = "m\<lparr>elems := (elems m)[e := (elems m ! e)\<lparr>parent := None\<rparr>], sent := s\<rparr>"
  have ci: "\<And>p i. p < length (elems m) \<Longrightarrow> i < length (children (elems m ! p)) \<Longrightarrow>
        validNode m (children (elems m ! p) ! i)
        \<and> getSiblingIndex m (children (elems m ! p) ! i) = i"
    using wl by (simp add: wellLinked_def childrenIndexed_iff)
  have pl: "\<And>n. validNode m n \<Longrightarrow> listedAtIndex m n"
    using wl by (simp add: wellLinked_def parentsListed_iff)
  have V: "validNode ?m' n \<longleftrightarrow> validNode m n" for n by (cases n) auto
  have S: "getSiblingIndex ?m' n = getSiblingIndex m n" if "validNode m n" for n
    using that by (cases n) (auto simp: nth_upd)
  have K: "children (elems ?m' ! p) = children (elems m ! p)" if "p < length (elems m)" for p
    using that by (simp add: nth_upd)
  have P: "nodeParent ?m' n = (if n = ElemPtr e then None else nodeParent m n)"
    if "validNode m n" for n
    using that by (cases n) (auto simp: nth_upd)
  have "childrenIndexed ?m'"
    unfolding childrenIndexed_iff
  proof (intro allI impI)
    fix p i
    assume p: "p < length (elems ?m')" and i: "i < length (children (elems ?m' ! p))"
    then have pm: "p < length (elems m)" and im: "i < length (children (elems m ! p))"
      using K [of p] by simp_all
    then have "validNode m (children (elems m ! p) ! i)"
      and "getSiblingIndex m (children (elems m ! p) ! i) = i"
      using ci by simp_all
    then show "validNode ?m' (children (elems ?m' ! p) ! i)
        \<and> getSiblingIndex ?m' (children (elems ?m' ! p) ! i) = i"
      using K [OF pm] V S by simp
  qed
  moreover have "parentsListed ?m'"
    unfolding parentsListed_iff
  proof (intro allI impI)
    fix n
    assume "validNode ?m' n"
    then have nm: "validNode m n" using V by simp
    show "listedAtIndex ?m' n"
    proof (cases "nodeParent ?m' n")
      case None
      then show ?thesis by (simp add: listedAtIndex_def)
    next
      case (Some q)
      then have old: "nodeParent m n = Some q" using P [OF nm] by (auto split: if_splits)
      then have q: "q < length (elems m)"
        and "getSiblingIndex m n < length (children (elems m ! q))"
        and "children (elems m ! q) ! getSiblingIndex m n = n"
        using pl [OF nm] by (simp_all add: listedAtIndex_def)
      then show ?thesis using Some S [OF nm] K [OF q] by (simp add: listedAtIndex_def)
    qed
  qed
  ultimately show ?thesis by (simp add: wellLinked_def)
qed

lemma checkAndStream_wellLinked:
  "wellLinked m \<Longrightarrow> e < length (elems m) \<Longrightarrow> wellLinked (checkAndStreamElement p e m)"
  using detach_wellLinked [of m e "sent m @ [e]"]
  by (simp add: checkAndStreamElement_def Let_def)

lemma checkAndStream_frame:
  "stack (checkAndStreamElement p e m) = stack m"
  "length (elems (checkAndStreamElement p e m)) = length (elems m)"
  "depth (checkAndStreamElement p e m) = depth m"
  "elemPool (checkAndStreamElement p e m) = elemPool m"
  "contentPool (checkAndStreamElement p e m) = contentPool m"
  by (simp_all add: checkAndStreamElement_def Let_def)

lemma checkAndStream_sent:
  "sent (checkAndStreamElement p e m) =
     sent m @ (if isStreamName p (Name (elems m ! e)) then [e] else [])"
  by (simp add: checkAndStreamElement_def Let_def)

lemma checkAndStream_Name:
  "x < length (elems m) \<Longrightarrow> Name (elems (checkAndStreamElement p e m) ! x) = Name (elems m ! x)"
  by (simp add: checkAndStreamElement_def Let_def nth_upd)

lemma checkAndStream_parent:
  "x < length (elems m) \<Longrightarrow>
     parent (elems (checkAndStreamElement p e m) ! x) = parent (elems m ! x)
     \<or> parent (elems (checkAndStreamElement p e m) ! x) = None"
  by (simp add: checkAndStreamElement_def Let_def nth_upd)

lemma checkAndStream_sentDetached:
  assumes sd: "sentDetached m" and e: "e < length (elems m)"
  shows "sentDetached (checkAndStreamElement p e m)"
proof (cases "isStreamName p (Name (elems m ! e))")
  case False
  then show ?thesis using sd by (simp add: checkAndStreamElement_def Let_def)
next
  case True
  have old: "\<And>x. x \<in> set (sent m) \<Longrightarrow> x < length (elems m) \<and> parent (elems m ! x) = None"
    using sd by (simp add: sentDetached_def list_all_iff)
  show ?thesis
    using True e old
    by (auto simp: sentDetached_def list_all_iff checkAndStreamElement_def Let_def nth_upd)
qed

lemma wellLinked_stores:
  assumes e: "elems m' = elems m" and c: "contents m' = contents m"
  shows "wellLinked m' = wellLinked m"
proof -
  have V: "validNode m' n = validNode m n" for n using e c by (cases n) simp_all
  have S: "getSiblingIndex m' n = getSiblingIndex m n" for n using e c by (cases n) simp_all
  have P: "nodeParent m' n = nodeParent m n" for n using e c by (cases n) simp_all
  show ?thesis
    by (simp add: wellLinked_def childrenIndexed_iff parentsListed_iff listedAtIndex_def V S P e
          cong: option.case_cong)
qed

lemma parseAttributes_fields:
  assumes "parseAttributes attrs elem = Some elem'"
  shows "children elem' = children elem" and "parent elem' = parent elem" and "Name elem' = Name elem"
  using assms by (auto simp: parseAttributes_def Let_def split: if_splits)

subsection \<open>One event\<close>

text \<open>With nothing in the pool the element of a start tag is a new one.\<close>

lemma handleStartElement_fresh:
  assumes "elemPool m = []"
  shows "handleStartElement p m name attrs fullTag elementNamespaces =
     (let (pre, loc) = splitName name;
          parentNS = (if length (stack m) > 0 then namespaces (elems m ! last (stack m)) else None);
          nsContext = nsContextOf parentNS elementNamespaces;
          uri = (if nsContext \<noteq> None then
                   (if pre \<noteq> [] then mapGet nsContext pre else mapGet nsContext [])
                 else []);
          elem = pooledElement\<lparr>Name := name, localName := loc, prefix := pre,
                   namespaceURI := uri, namespaces := nsContext\<rparr>
      in
      (case (if length attrs > 0 then parseAttributes attrs elem else Some elem) of
         None \<Rightarrow> None
       | Some elem' \<Rightarrow>
           let e = length (elems m); m' = linkFresh elem' m in
           if isSelfClosing fullTag then Some (checkAndStreamElement p e m')
           else Some (m'\<lparr>stack := stack m' @ [e], depth := depth m' + 1\<rparr>)))"
proof -
  have g: "getElementFromPool m = (length (elems m), m\<lparr>elems := elems m @ [pooledElement]\<rparr>)"
    using assms by (simp add: getElementFromPool_def)
  show ?thesis
    unfolding handleStartElement_def g
    by (simp add: Let_def split: prod.splits option.splits)
qed

lemma handleStartElement_effect:
  assumes ok: "machineOk m"
  shows "\<exists>m'. handleStartElement p m name attrs fullTag ens = Some m'
     \<and> machineOk m' \<and> keeps m m'
     \<and> length (elems m') = Suc (length (elems m))
     \<and> Name (elems m' ! length (elems m)) = name
     \<and> stack m' = (if isSelfClosing fullTag then stack m else stack m @ [length (elems m)])
     \<and> sent m' = sent m @ (if isSelfClosing fullTag \<and> isStreamName p name
                             then [length (elems m)] else [])"
proof -
  have wl: "wellLinked m" and sv: "stackValid m" and sd: "sentDetached m"
    and ep: "elemPool m = []" and cp: "contentPool m = []"
    using ok by (simp_all add: machineOk_def poolsEmpty_def)
  obtain pre loc where sp: "splitName name = (pre, loc)" by (cases "splitName name")
  define parentNS where
    "parentNS = (if length (stack m) > 0 then namespaces (elems m ! last (stack m)) else None)"
  define nsContext where "nsContext = nsContextOf parentNS ens"
  define uri where "uri = (if nsContext \<noteq> None then
                   (if pre \<noteq> [] then mapGet nsContext pre else mapGet nsContext [])
                 else [])"
  define elem where "elem = pooledElement\<lparr>Name := name, localName := loc, prefix := pre,
                   namespaceURI := uri, namespaces := nsContext\<rparr>"
  obtain elem' where pa: "(if length attrs > 0 then parseAttributes attrs elem else Some elem) = Some elem'"
    using parseAttributes_total [of attrs elem] by (cases "length attrs > 0") auto
  then have f: "children elem' = []" "parent elem' = None" "Name elem' = name"
    using parseAttributes_fields [of attrs elem elem']
    by (auto simp: elem_def pooledElement_def split: if_splits)
  define m1 where "m1 = linkFresh elem' m"
  define e where "e = length (elems m)"
  have res: "handleStartElement p m name attrs fullTag ens =
      (if isSelfClosing fullTag then Some (checkAndStreamElement p e m1)
       else Some (m1\<lparr>stack := stack m1 @ [e], depth := depth m1 + 1\<rparr>))"
    using pa sp
    unfolding handleStartElement_fresh [OF ep] Let_def parentNS_def nsContext_def uri_def elem_def
      m1_def e_def
    by (simp split: if_splits)
  have wl1: "wellLinked m1" unfolding m1_def using wl sv f(1) f(2) by (rule linkElement_wellLinked)
  have len1: "length (elems m1) = Suc e" and st1: "stack m1 = stack m" and se1: "sent m1 = sent m"
    by (simp_all add: m1_def e_def linkElement_frame)
  have nm1: "\<And>x. x < e \<Longrightarrow> Name (elems m1 ! x) = Name (elems m ! x)"
    and pr1: "\<And>x. x < e \<Longrightarrow> parent (elems m1 ! x) = parent (elems m ! x)"
    by (simp_all add: m1_def e_def linkElement_fields)
  have new1: "Name (elems m1 ! e) = name"
    using f(3) by (simp add: m1_def e_def linkElement_new_Name)
  have sv1: "stackValid m1" using sv len1 st1 by (auto simp: stackValid_def list_all_iff e_def)
  have sd1: "sentDetached m1"
    using sd len1 se1 pr1 by (auto simp: sentDetached_def list_all_iff e_def)
  have k1: "keeps m m1" using len1 nm1 by (simp add: keeps_def e_def)
  have pe1: "poolsEmpty m1" using ep cp by (simp add: poolsEmpty_def m1_def linkElement_frame)
  show ?thesis
  proof (cases "isSelfClosing fullTag")
    case True
    let ?m' = "checkAndStreamElement p e m1"
    have "machineOk ?m'"
      using wl1 sv1 sd1 len1 pe1
      by (simp add: machineOk_def checkAndStream_wellLinked checkAndStream_sentDetached
            stackValid_def checkAndStream_frame poolsEmpty_def)
    moreover have "keeps m ?m'"
      using k1 len1 by (simp add: keeps_def checkAndStream_frame checkAndStream_Name e_def)
    moreover have "Name (elems ?m' ! e) = name"
      using new1 len1 by (simp add: checkAndStream_Name)
    ultimately show ?thesis
      using True res len1 st1 se1 new1
      by (simp add: checkAndStream_frame checkAndStream_sent e_def)
  next
    case False
    let ?m' = "m1\<lparr>stack := stack m1 @ [e], depth := depth m1 + 1\<rparr>"
    have "wellLinked ?m'" using wl1 wellLinked_stores [of ?m' m1] by simp
    moreover have "stackValid ?m'" using sv1 len1 by (simp add: stackValid_def)
    moreover have "sentDetached ?m'" using sd1 by (simp add: sentDetached_def)
    moreover have "keeps m ?m'" using k1 by (simp add: keeps_def)
    moreover have "poolsEmpty ?m'" using pe1 by (simp add: poolsEmpty_def)
    ultimately show ?thesis
      using False res len1 st1 se1 new1 by (simp add: machineOk_def e_def)
  qed
qed

lemma handleEndElement_effect:
  assumes ok: "machineOk m"
  shows "machineOk (handleEndElement p m) \<and> keeps m (handleEndElement p m)
     \<and> length (elems (handleEndElement p m)) = length (elems m)
     \<and> stack (handleEndElement p m) = butlast (stack m)
     \<and> sent (handleEndElement p m) =
         sent m @ (if stack m \<noteq> [] \<and> isStreamName p (Name (elems m ! last (stack m)))
                   then [last (stack m)] else [])"
proof (cases "length (stack m) = 0")
  case True
  then show ?thesis using ok by (simp add: handleEndElement_def keeps_def)
next
  case False
  have wl: "wellLinked m" and sv: "stackValid m" and sd: "sentDetached m"
    and pe: "poolsEmpty m"
    using ok by (simp_all add: machineOk_def)
  define e where "e = last (stack m)"
  define m0 where "m0 = m\<lparr>stack := butlast (stack m)\<rparr>"
  define m1 where "m1 = checkAndStreamElement p e m0"
  have e: "e < length (elems m)" unfolding e_def using sv False by (simp add: stackValid_last)
  have res: "handleEndElement p m = m1\<lparr>depth := depth m1 - 1\<rparr>"
    using False by (simp add: handleEndElement_def Let_def m1_def m0_def e_def)
  have wl0: "wellLinked m0" using wl wellLinked_stores [of m0 m] by (simp add: m0_def)
  have sv0: "stackValid m0" using sv by (auto simp: stackValid_def m0_def list_all_iff dest: in_set_butlastD)
  have sd0: "sentDetached m0" using sd by (simp add: sentDetached_def m0_def)
  have e0: "e < length (elems m0)" using e by (simp add: m0_def)
  have wl1: "wellLinked m1" unfolding m1_def using wl0 e0 by (rule checkAndStream_wellLinked)
  have sd1: "sentDetached m1" unfolding m1_def using sd0 e0 by (rule checkAndStream_sentDetached)
  have sv1: "stackValid m1" using sv0 by (simp add: stackValid_def m1_def checkAndStream_frame)
  let ?m' = "m1\<lparr>depth := depth m1 - 1\<rparr>"
  have "wellLinked ?m'" using wl1 wellLinked_stores [of ?m' m1] by simp
  moreover have "stackValid ?m'" using sv1 by (simp add: stackValid_def)
  moreover have "sentDetached ?m'" using sd1 by (simp add: sentDetached_def)
  moreover have "keeps m ?m'"
    by (simp add: keeps_def m1_def checkAndStream_frame checkAndStream_Name m0_def)
  moreover have "poolsEmpty ?m'"
    using pe by (simp add: poolsEmpty_def m1_def checkAndStream_frame m0_def)
  moreover have "sent ?m' = sent m @ (if isStreamName p (Name (elems m ! e)) then [e] else [])"
    by (simp add: m1_def checkAndStream_sent m0_def)
  ultimately show ?thesis
    using False res by (simp add: machineOk_def m1_def checkAndStream_frame m0_def e_def)
qed

lemma appendContent_effect:
  assumes ok: "machineOk m" and nonempty: "length (stack m) > 0"
  shows "machineOk (appendContent kind b m) \<and> keeps m (appendContent kind b m)
     \<and> length (elems (appendContent kind b m)) = length (elems m)
     \<and> stack (appendContent kind b m) = stack m
     \<and> sent (appendContent kind b m) = sent m"
proof -
  have wl: "wellLinked m" and sv: "stackValid m" and sd: "sentDetached m"
    and ep: "elemPool m = []" and cp: "contentPool m = []"
    using ok by (simp_all add: machineOk_def poolsEmpty_def)
  note frame = appendContent_frame [OF cp, of kind b]
  note fields = appendContent_fields [OF cp, of _ kind b]
  have par: "last (stack m) < length (elems m)" using sv nonempty by (rule stackValid_last)
  have "wellLinked (appendContent kind b m)" using wl par cp by (rule appendContent_wellLinked)
  moreover have "stackValid (appendContent kind b m)"
    using sv by (simp add: stackValid_def frame)
  moreover have "sentDetached (appendContent kind b m)"
    using sd by (auto simp: sentDetached_def list_all_iff frame fields)
  moreover have "keeps m (appendContent kind b m)"
    by (simp add: keeps_def frame fields)
  moreover have "poolsEmpty (appendContent kind b m)"
    using ep by (simp add: poolsEmpty_def frame)
  ultimately show ?thesis by (simp add: machineOk_def frame)
qed

lemma keeps_refl: "keeps m m"
  by (simp add: keeps_def)

lemma keeps_trans: "keeps m m1 \<Longrightarrow> keeps m1 m2 \<Longrightarrow> keeps m m2"
  by (auto simp: keeps_def)

lemma keeps_names:
  "keeps m m' \<Longrightarrow> list_all (\<lambda>e. e < length (elems m)) xs \<Longrightarrow>
     map (\<lambda>e. (e, Name (elems m' ! e))) xs = map (\<lambda>e. (e, Name (elems m ! e))) xs"
  by (auto simp: keeps_def list_all_iff)

lemma sent_valid: "sentDetached m \<Longrightarrow> list_all (\<lambda>e. e < length (elems m)) (sent m)"
  by (auto simp: sentDetached_def list_all_iff)

lemma content_effect:
  assumes ok: "machineOk m"
    and ev: "ev = EventText b \<or> ev = EventCData b \<or> ev = EventComment b \<or> ev = EventOther"
  shows "\<exists>m1. handleEvent p ev m = Some m1 \<and> machineOk m1 \<and> keeps m m1
     \<and> length (elems m1) = length (elems m) \<and> stack m1 = stack m \<and> sent m1 = sent m"
proof -
  have same: "machineOk m \<and> keeps m m \<and> length (elems m) = length (elems m)
      \<and> stack m = stack m \<and> sent m = sent m"
    using ok by (simp add: keeps_refl)
  have app: "0 < length (stack m) \<Longrightarrow>
      machineOk (appendContent kind c m) \<and> keeps m (appendContent kind c m)
      \<and> length (elems (appendContent kind c m)) = length (elems m)
      \<and> stack (appendContent kind c m) = stack m \<and> sent (appendContent kind c m) = sent m"
    for kind c
    using appendContent_effect [OF ok] by blast
  from ev show ?thesis
  proof (elim disjE)
    assume "ev = EventText b"
    then show ?thesis using same app [of TextNode b] by simp
  next
    assume e: "ev = EventCData b"
    show ?thesis
    proof (cases "0 < length (stack m) \<and> 12 < length b")
      case False
      then show ?thesis using e same by auto
    next
      case True
      then have "9 \<le> length b - 3" by linarith
      then have s: "slice b 9 (length b - 3) = Some (take (length b - 12) (drop 9 b))"
        by (simp add: slice_def)
      show ?thesis using e True s same app [of TextNode "take (length b - 12) (drop 9 b)"]
        by simp
    qed
  next
    assume e: "ev = EventComment b"
    show ?thesis
    proof (cases "0 < length (stack m) \<and> 7 < length b")
      case False
      then show ?thesis using e same by auto
    next
      case True
      then have "4 \<le> length b - 3" by linarith
      then have s: "slice b 4 (length b - 3) = Some (take (length b - 7) (drop 4 b))"
        by (simp add: slice_def)
      show ?thesis using e True s app [of CommentNode "take (length b - 7) (drop 4 b)"]
        by simp
    qed
  next
    assume "ev = EventOther"
    then show ?thesis using same by simp
  qed
qed

lemma start_effect:
  assumes ok: "machineOk m"
  shows "\<exists>m1. handleEvent p (EventStart name attrs fullTag) m = Some m1
     \<and> machineOk m1 \<and> keeps m m1
     \<and> length (elems m1) = Suc (length (elems m))
     \<and> Name (elems m1 ! length (elems m)) = name
     \<and> stack m1 = (if isSelfClosing fullTag then stack m else stack m @ [length (elems m)])
     \<and> sent m1 = sent m @ (if isSelfClosing fullTag \<and> isStreamName p name
                             then [length (elems m)] else [])"
proof -
  obtain ens where
    "(if length attrs > 0 \<and> Contains attrs ''xmlns'' then extractNamespaces attrs else Some None)
       = Some ens"
    using extractNamespaces_total [of attrs] by (cases "length attrs > 0 \<and> Contains attrs ''xmlns''") auto
  then have "handleEvent p (EventStart name attrs fullTag) m
      = handleStartElement p m name attrs fullTag ens"
    by simp
  then show ?thesis using handleStartElement_effect [OF ok, of p name attrs fullTag ens] by simp
qed

subsection \<open>The whole parse\<close>

lemma parseEvents_spec:
  "machineOk m \<Longrightarrow>
     \<exists>mf. parseEvents p evs m = Some mf \<and> machineOk mf \<and> keeps m mf
       \<and> sentOf mf = sentOf m @ filter (isTarget p) (specClosed evs (length (elems m)) (openOf m))"
proof (induction evs arbitrary: m)
  case Nil
  then show ?case by (simp add: keeps_refl)
next
  case (Cons ev evs)
  note ok = \<open>machineOk m\<close>
  have sv: "stackValid m" and sd: "sentDetached m" using ok by (simp_all add: machineOk_def)
  have stk: "list_all (\<lambda>e. e < length (elems m)) (stack m)" using sv by (simp add: stackValid_def)
  have snt: "list_all (\<lambda>e. e < length (elems m)) (sent m)" using sd by (rule sent_valid)
  text \<open>One event, then the rest.\<close>
  have go: "?case"
    if h: "handleEvent p ev m = Some m1" and ok1: "machineOk m1" and k1: "keeps m m1"
      and sp: "sentOf m1 @ filter (isTarget p) (specClosed evs (length (elems m1)) (openOf m1))
             = sentOf m @ filter (isTarget p) (specClosed (ev # evs) (length (elems m)) (openOf m))"
    for m1
  proof -
    obtain mf where r: "parseEvents p evs m1 = Some mf" and okf: "machineOk mf"
      and kf: "keeps m1 mf"
      and sf: "sentOf mf = sentOf m1 @ filter (isTarget p) (specClosed evs (length (elems m1)) (openOf m1))"
      using Cons.IH [OF ok1] by blast
    have "parseEvents p (ev # evs) m = Some mf" using h r by simp
    moreover have "keeps m mf" using k1 kf by (rule keeps_trans)
    ultimately show ?thesis using okf sf sp by auto
  qed
  show ?case
  proof (cases ev)
    case (EventStart name attrs fullTag)
    obtain m1 where h: "handleEvent p ev m = Some m1" and ok1: "machineOk m1" and k1: "keeps m m1"
      and len: "length (elems m1) = Suc (length (elems m))"
      and nm: "Name (elems m1 ! length (elems m)) = name"
      and st: "stack m1 = (if isSelfClosing fullTag then stack m else stack m @ [length (elems m)])"
      and se: "sent m1 = sent m @ (if isSelfClosing fullTag \<and> isStreamName p name
                             then [length (elems m)] else [])"
      using start_effect [OF ok, of p name attrs fullTag] EventStart by blast
    have o1: "openOf m1 = (if isSelfClosing fullTag then openOf m
                           else openOf m @ [(length (elems m), name)])"
      using st nm keeps_names [OF k1 stk] by (simp add: openOf_def)
    have s1: "sentOf m1 = sentOf m @ (if isSelfClosing fullTag \<and> isStreamName p name
                             then [(length (elems m), name)] else [])"
      using se nm keeps_names [OF k1 snt] by (simp add: sentOf_def)
    show ?thesis
      using h ok1 k1
    proof (rule go)
      show "sentOf m1 @ filter (isTarget p) (specClosed evs (length (elems m1)) (openOf m1))
             = sentOf m @ filter (isTarget p) (specClosed (ev # evs) (length (elems m)) (openOf m))"
        using EventStart len o1 s1 by (simp add: isTarget_def)
    qed
  next
    case EventEnd
    let ?m1 = "handleEndElement p m"
    have h: "handleEvent p ev m = Some ?m1" using EventEnd by simp
    have ok1: "machineOk ?m1" and k1: "keeps m ?m1"
      and len: "length (elems ?m1) = length (elems m)"
      and st: "stack ?m1 = butlast (stack m)"
      and se: "sent ?m1 = sent m @ (if stack m \<noteq> [] \<and> isStreamName p (Name (elems m ! last (stack m)))
                   then [last (stack m)] else [])"
      using handleEndElement_effect [OF ok, of p] by simp_all
    have stk1: "list_all (\<lambda>e. e < length (elems m)) (butlast (stack m))"
      using stk by (auto simp: list_all_iff dest: in_set_butlastD)
    have o1: "openOf ?m1 = butlast (openOf m)"
      using st keeps_names [OF k1 stk1] by (simp add: openOf_def map_butlast)
    have lastv: "stack m \<noteq> [] \<Longrightarrow> last (stack m) < length (elems m)"
      using sv by (simp add: stackValid_last)
    have s1: "sentOf ?m1 = sentOf m @ (if stack m \<noteq> [] \<and> isStreamName p (Name (elems m ! last (stack m)))
                   then [(last (stack m), Name (elems m ! last (stack m)))] else [])"
      using se keeps_names [OF k1 snt] k1 lastv by (auto simp: sentOf_def keeps_def)
    have lo: "stack m \<noteq> [] \<Longrightarrow> last (openOf m) = (last (stack m), Name (elems m ! last (stack m)))"
      by (simp add: openOf_def last_map)
    have em: "openOf m = [] \<longleftrightarrow> stack m = []" by (simp add: openOf_def)
    show ?thesis
      using h ok1 k1
    proof (rule go)
      show "sentOf ?m1 @ filter (isTarget p) (specClosed evs (length (elems ?m1)) (openOf ?m1))
             = sentOf m @ filter (isTarget p) (specClosed (ev # evs) (length (elems m)) (openOf m))"
        using EventEnd len o1 s1 lo em by (auto simp: isTarget_def)
    qed
  next
    case (EventText b)
    then obtain m1 where h: "handleEvent p ev m = Some m1" and ok1: "machineOk m1"
      and k1: "keeps m m1" and len: "length (elems m1) = length (elems m)"
      and st: "stack m1 = stack m" and se: "sent m1 = sent m"
      using content_effect [OF ok, of ev b p] by blast
    have "openOf m1 = openOf m" using st keeps_names [OF k1 stk] by (simp add: openOf_def)
    moreover have "sentOf m1 = sentOf m" using se keeps_names [OF k1 snt] by (simp add: sentOf_def)
    ultimately show ?thesis using go [OF h ok1 k1] EventText len by simp
  next
    case (EventCData b)
    then obtain m1 where h: "handleEvent p ev m = Some m1" and ok1: "machineOk m1"
      and k1: "keeps m m1" and len: "length (elems m1) = length (elems m)"
      and st: "stack m1 = stack m" and se: "sent m1 = sent m"
      using content_effect [OF ok, of ev b p] by blast
    have "openOf m1 = openOf m" using st keeps_names [OF k1 stk] by (simp add: openOf_def)
    moreover have "sentOf m1 = sentOf m" using se keeps_names [OF k1 snt] by (simp add: sentOf_def)
    ultimately show ?thesis using go [OF h ok1 k1] EventCData len by simp
  next
    case (EventComment b)
    then obtain m1 where h: "handleEvent p ev m = Some m1" and ok1: "machineOk m1"
      and k1: "keeps m m1" and len: "length (elems m1) = length (elems m)"
      and st: "stack m1 = stack m" and se: "sent m1 = sent m"
      using content_effect [OF ok, of ev b p] by blast
    have "openOf m1 = openOf m" using st keeps_names [OF k1 stk] by (simp add: openOf_def)
    moreover have "sentOf m1 = sentOf m" using se keeps_names [OF k1 snt] by (simp add: sentOf_def)
    ultimately show ?thesis using go [OF h ok1 k1] EventComment len by simp
  next
    case EventOther
    then obtain m1 where h: "handleEvent p ev m = Some m1" and ok1: "machineOk m1"
      and k1: "keeps m m1" and len: "length (elems m1) = length (elems m)"
      and st: "stack m1 = stack m" and se: "sent m1 = sent m"
      using content_effect [OF ok, of ev "[]" p] by blast
    have "openOf m1 = openOf m" using st keeps_names [OF k1 stk] by (simp add: openOf_def)
    moreover have "sentOf m1 = sentOf m" using se keeps_names [OF k1 snt] by (simp add: sentOf_def)
    ultimately show ?thesis using go [OF h ok1 k1] EventOther len by simp
  qed
qed

lemma machineOk_initial: "machineOk initial"
  by (simp add: machineOk_def wellLinked_def childrenIndexed_def parentsListed_def
        stackValid_def sentDetached_def poolsEmpty_def initial_def)

lemma parse_spec:
  "\<exists>mf. parse p evs = Some mf \<and> machineOk mf
       \<and> sentOf mf = filter (isTarget p) (specClosed evs 0 [])"
  using parseEvents_spec [OF machineOk_initial, of p evs]
  by (auto simp: parse_def sentOf_def openOf_def initial_def)

section \<open>What is sent\<close>






text \<open>
  C3. After any sequence of events of a parse, every element that has been sent has a
  \<open>nil\<close> parent; the state after an event is the state at the send, since the handlers
  write to no element after \<open>checkAndStreamElement\<close> returns.
\<close>

theorem sent_elements_are_detached:
  "\<exists>m. parse p evs = Some m
     \<and> (\<forall>e \<in> set (sent m). e < length (elems m) \<and> parent (elems m ! e) = None)"
proof -
  obtain m where "parse p evs = Some m" and "machineOk m" using parse_spec by blast
  then show ?thesis by (auto simp: machineOk_def sentDetached_def list_all_iff)
qed

theorem sent_elements_are_detached_witness:
  "parse itemParser siblingsDoc = Some siblingsTree
   \<and> sent siblingsTree = [1, 3]
   \<and> parent (elems siblingsTree ! 1) = None \<and> parent (elems siblingsTree ! 3) = None"
proof -
  obtain m where p: "parse itemParser siblingsDoc = Some m"
    and d: "\<forall>e \<in> set (sent m). e < length (elems m) \<and> parent (elems m ! e) = None"
    using sent_elements_are_detached [of itemParser siblingsDoc] by blast
  have m: "m = siblingsTree" using p parse_siblingsDoc by simp
  have s: "sent siblingsTree = [1, 3]" by (simp add: siblingsTree_def)
  then have "parent (elems siblingsTree ! 1) = None" and "parent (elems siblingsTree ! 3) = None"
    using d m by simp_all
  then show ?thesis using parse_siblingsDoc s by simp
qed

section \<open>The sibling index\<close>

lemma run_tokens: "run p (map Token evs) m = parseEvents p evs m"
  by (induction evs arbitrary: m) (auto split: option.splits)

text \<open>
  As long as no consumer releases anything, every child list of the stores holds at
  position \<open>i\<close> a node whose sibling index is \<open>i\<close>, and every node with a parent is
  listed by that parent at the node's sibling index.
\<close>

lemma unreleased_stores_are_well_linked:
  "\<exists>m. run p (map Token evs) initial = Some m
     \<and> (\<forall>q i. q < length (elems m) \<and> i < length (children (elems m ! q)) \<longrightarrow>
           validNode m (children (elems m ! q) ! i)
           \<and> getSiblingIndex m (children (elems m ! q) ! i) = i)
     \<and> (\<forall>n q. validNode m n \<and> nodeParent m n = Some q \<longrightarrow>
           q < length (elems m)
           \<and> getSiblingIndex m n < length (children (elems m ! q))
           \<and> children (elems m ! q) ! getSiblingIndex m n = n)"
proof -
  obtain m where p: "parse p evs = Some m" and "machineOk m" using parse_spec by blast
  then have ci: "childrenIndexed m" and pl: "parentsListed m"
    by (simp_all add: machineOk_def wellLinked_def)
  have r: "run p (map Token evs) initial = Some m" using p by (simp add: run_tokens parse_def)
  have 1: "\<forall>q i. q < length (elems m) \<and> i < length (children (elems m ! q)) \<longrightarrow>
           validNode m (children (elems m ! q) ! i)
           \<and> getSiblingIndex m (children (elems m ! q) ! i) = i"
    using ci by (simp add: childrenIndexed_iff)
  have 2: "\<forall>n q. validNode m n \<and> nodeParent m n = Some q \<longrightarrow>
           q < length (elems m)
           \<and> getSiblingIndex m n < length (children (elems m ! q))
           \<and> children (elems m ! q) ! getSiblingIndex m n = n"
    using pl by (auto simp: parentsListed_iff listedAtIndex_def)
  show ?thesis using r 1 2 by blast
qed

text \<open>
  C4. At every point a reader can observe the tree, \<open>children[i].siblingIndex\<close> is to
  be \<open>i\<close>. \<open>checkAndStreamElement\<close> sets the parent of a sent element to \<open>nil\<close> and
  leaves the element in its parent's \<open>children\<close>. Once the consumer has released it,
  the next start tag takes the same object out of the pool and links it to the same
  parent again: \<open>outer\<close>, sent at its end tag and not released, has the children
  \<open>[X, X]\<close>, and the sibling index of \<open>children[0]\<close> is 1. On the second run, where the
  recycled object stays linked, \<open>MoveToPrevious\<close> from it succeeds and arrives at the
  same node.
\<close>

theorem recycled_element_breaks_sibling_index:
  "run nestedParser recycleRun initial = Some recycledTree
   \<and> sent recycledTree = [1, 1, 0]
   \<and> children (elems recycledTree ! 0) = [ElemPtr 1, ElemPtr 1]
   \<and> getSiblingIndex recycledTree (children (elems recycledTree ! 0) ! 0) = 1
   \<and> childrenIndexed recycledTree = False
   \<and> run nestedParser staleRun initial = Some staleTree
   \<and> children (elems staleTree ! 0) = [ElemPtr 1, ElemPtr 1]
   \<and> nodeParent staleTree (ElemPtr 1) = Some 0
   \<and> getSiblingIndex staleTree (children (elems staleTree ! 0) ! 0) = 1
   \<and> MoveToPrevious staleTree
         \<lparr>root = 0, currNode = ElemPtr 1, currElement = Some 1, attributeIndex = -1\<rparr>
       = Some (\<lparr>root = 0, currNode = ElemPtr 1, currElement = Some 1, attributeIndex = -1\<rparr>, True)"
proof -
  have r1: "run nestedParser recycleRun initial = Some recycledTree" by code_simp
  have r2: "run nestedParser staleRun initial = Some staleTree" by code_simp
  have a: "sent recycledTree = [1, 1, 0]"
    and b: "children (elems recycledTree ! 0) = [ElemPtr 1, ElemPtr 1]"
    and c: "getSiblingIndex recycledTree (children (elems recycledTree ! 0) ! 0) = 1"
    by (simp_all add: recycledTree_def)
  have d: "childrenIndexed recycledTree = False" by code_simp
  have e: "children (elems staleTree ! 0) = [ElemPtr 1, ElemPtr 1]"
    and f: "nodeParent staleTree (ElemPtr 1) = Some 0"
    and g: "getSiblingIndex staleTree (children (elems staleTree ! 0) ! 0) = 1"
    by (simp_all add: staleTree_def)
  have h: "MoveToPrevious staleTree
         \<lparr>root = 0, currNode = ElemPtr 1, currElement = Some 1, attributeIndex = -1\<rparr>
       = Some (\<lparr>root = 0, currNode = ElemPtr 1, currElement = Some 1, attributeIndex = -1\<rparr>, True)"
    by (simp add: MoveToPrevious_def staleTree_def)
  show ?thesis using r1 r2 a b c d e f g h by blast
qed

theorem recycled_element_breaks_sibling_index_witness:
  "getSiblingIndex recycledTree (children (elems recycledTree ! 0) ! 0) \<noteq> 0
   \<and> length (children (elems recycledTree ! 0)) = 2"
proof -
  have "getSiblingIndex recycledTree (children (elems recycledTree ! 0) ! 0) = 1"
    and "children (elems recycledTree ! 0) = [ElemPtr 1, ElemPtr 1]"
    using recycled_element_breaks_sibling_index by blast+
  then show ?thesis by simp
qed




section \<open>InnerText and comments\<close>

text \<open>
  C1. \<open>InnerText\<close> is to be the concatenation of the descendant text runs, comments
  left out. On \<^verbatim>\<open><item><!--c-->text</item>\<close> the element has no element
  child, so \<open>InnerText\<close> returns \<open>rawContent\<close> whole, and the comment's byte is in it:
  the result is \<open>ctext\<close>. \<open>collectText\<close>, the path taken when there is an element
  child, skips the comment node and gives \<open>text\<close> on the same element.
\<close>

theorem InnerText_fast_path_keeps_comment_bytes:
  "parse itemParser commentDoc = Some commentTree
   \<and> sent commentTree = [0]
   \<and> map (\<lambda>c. nodeType (contents commentTree ! c)) [0, 1] = [CommentNode, TextNode]
   \<and> InnerText fuel commentTree 0 = Some ''ctext''
   \<and> collectText (Suc fuel) commentTree 0 = Some ''text''"
proof -
  have "InnerText fuel commentTree 0 = Some ''ctext''"
    by (simp add: InnerText_def commentTree_def)
  moreover have "collectText (Suc fuel) commentTree 0 = Some ''text''"
    by (simp add: commentTree_def slice_def)
  ultimately show ?thesis using parse_commentDoc by (simp add: commentTree_def)
qed

theorem InnerText_fast_path_keeps_comment_bytes_witness:
  "InnerText 1 commentTree 0 = Some ''ctext'' \<and> ''ctext'' \<noteq> ''text''"
  using InnerText_fast_path_keeps_comment_bytes [of 1] by simp

end
